theory Spec2Isabelle
  imports Main
begin

section \<open>GraphQL AST nodes\<close>

text \<open>
  The nodes of the \<^verbatim>\<open>graphql\<close> AST that the import processing reads. Every
  \<^verbatim>\<open>name\<close> is the node's \<^verbatim>\<open>name.value\<close>; a \<^verbatim>\<open>NamedTypeNode\<close> in an interface
  list, a union member list or a root operation type is kept as its name. Strings are
  lists of 8-bit characters. Out of the model: type-system extension nodes and anonymous
  operations (their \<^verbatim>\<open>name\<close> is \<^verbatim>\<open>undefined\<close>, every read of \<^verbatim>\<open>name.value\<close> throws
  there).
\<close>

datatype type_node = NamedType string | ListType type_node | NonNullType type_node

datatype directive_node = Directive (directive_name: string)

datatype input_value =
  InputValueDefinition (iv_name: string) (iv_type: type_node) (iv_directives: "directive_node list")

datatype field_def =
  FieldDefinition (fd_name: string) (fd_arguments: "input_value list") (fd_type: type_node)
    (fd_directives: "directive_node list")

datatype enum_value = EnumValueDefinition (ev_name: string) (ev_directives: "directive_node list")

datatype operation_type = OperationTypeDefinition (ot_operation: string) (ot_type: string)

text \<open>
  A selection: a field (its \<^verbatim>\<open>selectionSet\<close> is absent for a leaf), a fragment spread
  or an inline fragment.
\<close>

datatype selection =
    Field string "directive_node list" "selection list option"
  | FragmentSpread string "directive_node list"
  | InlineFragment "directive_node list" "selection list"

datatype definition_node =
    ScalarTypeDefinition string "directive_node list"
  | ObjectTypeDefinition string "string list" "directive_node list" "field_def list"
  | InterfaceTypeDefinition string "directive_node list" "field_def list"
  | UnionTypeDefinition string "directive_node list" "string list"
  | EnumTypeDefinition string "directive_node list" "enum_value list"
  | InputObjectTypeDefinition string "directive_node list" "input_value list"
  | DirectiveDefinition string "input_value list"
  | SchemaDefinition "directive_node list" "operation_type list"
  | OperationDefinition string "directive_node list" "selection list"
  | FragmentDefinition string "directive_node list" "selection list"

text \<open>\<^verbatim>\<open>'name' in d ? Some d.name.value : None\<close>: only a schema definition has no name.\<close>

fun nameOf :: "definition_node \<Rightarrow> string option" where
  "nameOf (ScalarTypeDefinition n ds) = Some n"
| "nameOf (ObjectTypeDefinition n is ds fs) = Some n"
| "nameOf (InterfaceTypeDefinition n ds fs) = Some n"
| "nameOf (UnionTypeDefinition n ds ts) = Some n"
| "nameOf (EnumTypeDefinition n ds vs) = Some n"
| "nameOf (InputObjectTypeDefinition n ds fs) = Some n"
| "nameOf (DirectiveDefinition n as) = Some n"
| "nameOf (SchemaDefinition ds ots) = None"
| "nameOf (OperationDefinition n ds ss) = Some n"
| "nameOf (FragmentDefinition n ds ss) = Some n"

text \<open>\<^verbatim>\<open>'name' in d ? d.name.value : 'schema'\<close>, the key of the lookup map and of the
  visited table.\<close>

definition defName :: "definition_node \<Rightarrow> string" where
  "defName d = (case nameOf d of Some n \<Rightarrow> n | None \<Rightarrow> ''schema'')"

section \<open>Errors\<close>

text \<open>
  How a call ends when it does not return a value of the model. \<open>Error m\<close> is
  \<^verbatim>\<open>new Error(m)\<close>; \<open>TypeError\<close> is a property read on \<^verbatim>\<open>undefined\<close> or \<^verbatim>\<open>null\<close>;
  \<open>RangeError\<close> is the call stack running out. \<open>PrototypeProperty n\<close> is no error
  of the code: a lookup of the key \<open>n\<close> in a plain object (\<^verbatim>\<open>schemaMap[n]\<close>, or
  \<^verbatim>\<open>n in options.cache\<close>) that has no such key of its own was decided by the prototype of
  the object, which has the property \<open>n\<close>, and the code goes on with the inherited value
  as if it had been stored under the key. That value is no value of the model, so the call
  is not followed further.
\<close>

datatype error = Error string | TypeError | RangeError | PrototypeProperty string

text \<open>
  The properties of \<^verbatim>\<open>Object.prototype\<close>. A plain object \<^verbatim>\<open>o\<close> has a truthy \<^verbatim>\<open>o[n]\<close> for each
  of these names \<open>n\<close>, whether or not a key \<open>n\<close> was ever set: eleven functions, and
  \<^verbatim>\<open>Object.prototype\<close> itself under \<^verbatim>\<open>__proto__\<close>.
\<close>

definition objectPrototypeNames :: "string list" where
  "objectPrototypeNames =
     [''constructor'', ''__defineGetter__'', ''__defineSetter__'', ''hasOwnProperty'',
      ''__lookupGetter__'', ''__lookupSetter__'', ''isPrototypeOf'', ''propertyIsEnumerable'',
      ''toString'', ''valueOf'', ''__proto__'', ''toLocaleString'']"

definition bindE :: "error + 'a \<Rightarrow> ('a \<Rightarrow> error + 'b) \<Rightarrow> error + 'b" where
  "bindE m f = (case m of Inl e \<Rightarrow> Inl e | Inr x \<Rightarrow> f x)"

text \<open>\<^verbatim>\<open>xs.forEach(f)\<close> where \<open>f\<close> updates an accumulator and may throw.\<close>

fun forEachE :: "('a \<Rightarrow> 's \<Rightarrow> error + 's) \<Rightarrow> 'a list \<Rightarrow> 's \<Rightarrow> error + 's" where
  "forEachE f [] s = Inr s"
| "forEachE f (x # xs) s = (case f x s of Inl e \<Rightarrow> Inl e | Inr s' \<Rightarrow> forEachE f xs s')"

section \<open>lodash helpers\<close>

text \<open>\<^verbatim>\<open>keyBy(xs, f)\<close>: the last element that generates a key is the value of the key.\<close>

definition keyBy :: "'a list \<Rightarrow> ('a \<Rightarrow> 'k) \<Rightarrow> ('k \<rightharpoonup> 'a)" where
  "keyBy xs f = fold (\<lambda>x m. m(f x \<mapsto> x)) xs Map.empty"

text \<open>\<^verbatim>\<open>uniqBy(xs, f)\<close>: the first element of every key is kept, in order.\<close>

fun uniqSeen :: "('a \<Rightarrow> 'k) \<Rightarrow> 'k list \<Rightarrow> 'a list \<Rightarrow> 'a list" where
  "uniqSeen f seen [] = []"
| "uniqSeen f seen (x # xs) =
     (if f x \<in> set seen then uniqSeen f seen xs else x # uniqSeen f (f x # seen) xs)"

definition uniqBy :: "'a list \<Rightarrow> ('a \<Rightarrow> 'k) \<Rightarrow> 'a list" where
  "uniqBy xs f = uniqSeen f [] xs"

section \<open>Completing the definition pool\<close>

definition builtinTypes :: "string list" where
  "builtinTypes = [''String'', ''Float'', ''Int'', ''Boolean'', ''ID'', ''Upload'']"

definition builtinDirectives :: "string list" where
  "builtinDirectives = [''deprecated'', ''skip'', ''include'', ''cacheControl'', ''key'',
     ''external'', ''requires'', ''provides'', ''connection'', ''client'']"

text \<open>The name of the \<^verbatim>\<open>NamedTypeNode\<close> inside a type node.\<close>

fun getNamedType :: "type_node \<Rightarrow> string" where
  "getNamedType (NamedType n) = n"
| "getNamedType (ListType t) = getNamedType t"
| "getNamedType (NonNullType t) = getNamedType t"

text \<open>\<^verbatim>\<open>definitionPool.some(d => 'name' in d && d.name.value === n)\<close>\<close>

definition inPool :: "definition_node list \<Rightarrow> string \<Rightarrow> bool" where
  "inPool definitionPool n = list_ex (\<lambda>d. nameOf d = Some n) definitionPool"

text \<open>
  \<^verbatim>\<open>const m = schemaMap[n]; if (!m) throw new Error(msg)\<close> for a name \<open>n\<close> that is no
  key of the map: the error, unless \<open>n\<close> names an inherited property, which is truthy.
\<close>

definition missing :: "string \<Rightarrow> string \<Rightarrow> error" where
  "missing n msg = (if n \<in> set objectPrototypeNames then PrototypeProperty n else Error msg)"

text \<open>The messages of the errors of a failed lookup.\<close>

definition typeNotFound :: "string \<Rightarrow> string" where
  "typeNotFound typeName = ''Couldn't find type '' @ typeName @ '' in any of the schemas.''"

definition interfaceNotFound :: "string \<Rightarrow> string" where
  "interfaceNotFound interfaceName =
     ''Couldn't find interface '' @ interfaceName @ '' in any of the schemas.''"

definition fragmentNotFound :: "string \<Rightarrow> string" where
  "fragmentNotFound fragmentName =
     ''Fragment '' @ fragmentName @ '': Couldn't find fragment '' @ fragmentName
       @ '' in any of the documents.''"

definition fieldTypeNotFound :: "string \<Rightarrow> string \<Rightarrow> string" where
  "fieldTypeNotFound nodeName nodeTypeName =
     ''Field '' @ nodeName @ '': Couldn't find type '' @ nodeTypeName @ '' in any of the schemas.''"

definition directiveNotFound :: "string \<Rightarrow> string" where
  "directiveNotFound directiveName =
     ''Directive '' @ directiveName @ '': Couldn't find type '' @ directiveName
       @ '' in any of the schemas.''"

text \<open>
  \<^verbatim>\<open>collectNode\<close> and \<^verbatim>\<open>collectDirective\<close> call each other: a directive that is not in
  the pool is looked up, and the arguments of its definition are collected as nodes, whose
  directives are collected in turn. Nothing in the source bounds that recursion (a
  directive definition may use itself on one of its own arguments), so the model carries
  the depth of directive definitions that the call stack still admits; where the depth
  is used up the JavaScript engine throws a \<^verbatim>\<open>RangeError\<close>. The value that
  \<^verbatim>\<open>collectDirective\<close> finds is read at once (\<^verbatim>\<open>directive.arguments.forEach\<close>): a definition
  that is no directive definition has no \<^verbatim>\<open>arguments\<close>, and neither has an inherited
  property (\<^verbatim>\<open>arguments\<close> of a built-in function is \<^verbatim>\<open>null\<close> or throws), so both end in a
  \<^verbatim>\<open>TypeError\<close>. \<open>collectNodeWith\<close> is
  \<^verbatim>\<open>collectNode\<close> with the directive collector passed in; a node is read through its
  name, type and directives (a field definition or an input value definition).
\<close>

definition collectNodeWith ::
  "(directive_node \<Rightarrow> definition_node list \<Rightarrow> error + definition_node list) \<Rightarrow> definition_node list \<Rightarrow>
   (string \<rightharpoonup> definition_node) \<Rightarrow> string \<Rightarrow> type_node \<Rightarrow> directive_node list \<Rightarrow>
   definition_node list \<Rightarrow> error + definition_node list" where
  "collectNodeWith collectDir definitionPool schemaMap nodeName nodeType nodeDirectives acc =
     (let nodeTypeName = getNamedType nodeType in
      bindE
        (if \<not> inPool definitionPool nodeTypeName \<and> nodeTypeName \<notin> set builtinTypes then
           (case schemaMap nodeTypeName of
              None \<Rightarrow> Inl (missing nodeTypeName (fieldTypeNotFound nodeName nodeTypeName))
            | Some argTypeMatch \<Rightarrow> Inr (acc @ [argTypeMatch]))
         else Inr acc)
        (forEachE collectDir nodeDirectives))"

primrec collectDirective ::
  "nat \<Rightarrow> definition_node list \<Rightarrow> (string \<rightharpoonup> definition_node) \<Rightarrow> directive_node \<Rightarrow>
   definition_node list \<Rightarrow> error + definition_node list" where
  "collectDirective 0 definitionPool schemaMap directive acc =
     (let directiveName = directive_name directive in
      if \<not> inPool definitionPool directiveName \<and> directiveName \<notin> set builtinDirectives then
        (case schemaMap directiveName of
           None \<Rightarrow>
             if directiveName \<in> set objectPrototypeNames then Inl TypeError
             else Inl (Error (directiveNotFound directiveName))
         | Some found \<Rightarrow>
             (case found of DirectiveDefinition n arguments \<Rightarrow> Inl RangeError | _ \<Rightarrow> Inl TypeError))
      else Inr acc)"
| "collectDirective (Suc stack) definitionPool schemaMap directive acc =
     (let directiveName = directive_name directive in
      if \<not> inPool definitionPool directiveName \<and> directiveName \<notin> set builtinDirectives then
        (case schemaMap directiveName of
           None \<Rightarrow>
             if directiveName \<in> set objectPrototypeNames then Inl TypeError
             else Inl (Error (directiveNotFound directiveName))
         | Some found \<Rightarrow>
             (case found of
                DirectiveDefinition n arguments \<Rightarrow>
                  bindE
                    (forEachE
                       (\<lambda>a. collectNodeWith (collectDirective stack definitionPool schemaMap)
                          definitionPool schemaMap (iv_name a) (iv_type a) (iv_directives a))
                       arguments acc)
                    (\<lambda>acc'. Inr (acc' @ [found]))
              | _ \<Rightarrow> Inl TypeError))
      else Inr acc)"

definition collectNode ::
  "nat \<Rightarrow> definition_node list \<Rightarrow> (string \<rightharpoonup> definition_node) \<Rightarrow> string \<Rightarrow> type_node \<Rightarrow>
   directive_node list \<Rightarrow> definition_node list \<Rightarrow> error + definition_node list" where
  "collectNode stack definitionPool schemaMap =
     collectNodeWith (collectDirective stack definitionPool schemaMap) definitionPool schemaMap"

definition collectInputValue ::
  "nat \<Rightarrow> definition_node list \<Rightarrow> (string \<rightharpoonup> definition_node) \<Rightarrow> input_value \<Rightarrow>
   definition_node list \<Rightarrow> error + definition_node list" where
  "collectInputValue stack definitionPool schemaMap a =
     collectNode stack definitionPool schemaMap (iv_name a) (iv_type a) (iv_directives a)"

definition collectField ::
  "nat \<Rightarrow> definition_node list \<Rightarrow> (string \<rightharpoonup> definition_node) \<Rightarrow> field_def \<Rightarrow>
   definition_node list \<Rightarrow> error + definition_node list" where
  "collectField stack definitionPool schemaMap f =
     collectNode stack definitionPool schemaMap (fd_name f) (fd_type f) (fd_directives f)"

text \<open>The lookup of a union member or of a root operation type.\<close>

definition collectType ::
  "definition_node list \<Rightarrow> (string \<rightharpoonup> definition_node) \<Rightarrow> string \<Rightarrow> definition_node list \<Rightarrow>
   error + definition_node list" where
  "collectType definitionPool schemaMap typeName acc =
     (if \<not> inPool definitionPool typeName then
        (case schemaMap typeName of
           None \<Rightarrow> Inl (missing typeName (typeNotFound typeName))
         | Some typeMatch \<Rightarrow> Inr (acc @ [typeMatch]))
      else Inr acc)"

text \<open>The lookup of an interface that an object type declares.\<close>

definition collectInterface ::
  "definition_node list \<Rightarrow> (string \<rightharpoonup> definition_node) \<Rightarrow> string \<Rightarrow> definition_node list \<Rightarrow>
   error + definition_node list" where
  "collectInterface definitionPool schemaMap interfaceName acc =
     (if \<not> inPool definitionPool interfaceName then
        (case schemaMap interfaceName of
           None \<Rightarrow> Inl (missing interfaceName (interfaceNotFound interfaceName))
         | Some interfaceMatch \<Rightarrow> Inr (acc @ [interfaceMatch]))
      else Inr acc)"

text \<open>
  \<^verbatim>\<open>collectFragments(node)\<close>: a fragment spread is looked up; a node with a selection
  set collects, for each of its selections, the node's own directives and then the
  selection.
\<close>

fun collectFragments ::
  "nat \<Rightarrow> definition_node list \<Rightarrow> (string \<rightharpoonup> definition_node) \<Rightarrow> selection \<Rightarrow>
   definition_node list \<Rightarrow> error + definition_node list"
and collectSelections ::
  "nat \<Rightarrow> definition_node list \<Rightarrow> (string \<rightharpoonup> definition_node) \<Rightarrow> directive_node list \<Rightarrow>
   selection list \<Rightarrow> definition_node list \<Rightarrow> error + definition_node list" where
  "collectFragments stack definitionPool schemaMap (FragmentSpread fragmentName ds) acc =
     (if \<not> inPool definitionPool fragmentName then
        (case schemaMap fragmentName of
           None \<Rightarrow> Inl (missing fragmentName (fragmentNotFound fragmentName))
         | Some fragmentMatch \<Rightarrow> Inr (acc @ [fragmentMatch]))
      else Inr acc)"
| "collectFragments stack definitionPool schemaMap (Field n ds None) acc = Inr acc"
| "collectFragments stack definitionPool schemaMap (Field n ds (Some selections)) acc =
     collectSelections stack definitionPool schemaMap ds selections acc"
| "collectFragments stack definitionPool schemaMap (InlineFragment ds selections) acc =
     collectSelections stack definitionPool schemaMap ds selections acc"
| "collectSelections stack definitionPool schemaMap nodeDirectives [] acc = Inr acc"
| "collectSelections stack definitionPool schemaMap nodeDirectives (selection # rest) acc =
     bindE (forEachE (collectDirective stack definitionPool schemaMap) nodeDirectives acc)
       (\<lambda>acc1. bindE (collectFragments stack definitionPool schemaMap selection acc1)
          (collectSelections stack definitionPool schemaMap nodeDirectives rest))"

text \<open>
  \<^verbatim>\<open>d.kind === Kind.OBJECT_TYPE_DEFINITION && d.interfaces.some(i => i.name.value === interfaceName)\<close>
\<close>

fun implementsInterface :: "string \<Rightarrow> definition_node \<Rightarrow> bool" where
  "implementsInterface interfaceName (ObjectTypeDefinition n interfaces ds fs) =
     (interfaceName \<in> set interfaces)"
| "implementsInterface interfaceName d = False"

text \<open>
  \<^verbatim>\<open>collectNewTypeDefinitions\<close>: one equation for each kind, each running the blocks of the
  source that apply to the kind, in the order of the source, on the local list
  \<^verbatim>\<open>newTypeDefinitions\<close>.
\<close>

fun collectNewTypeDefinitions ::
  "nat \<Rightarrow> definition_node list \<Rightarrow> definition_node list \<Rightarrow> definition_node \<Rightarrow> (string \<rightharpoonup> definition_node) \<Rightarrow>
   error + definition_node list" where
  "collectNewTypeDefinitions stack allDefinitions definitionPool (ScalarTypeDefinition n ds)
     schemaMap =
     forEachE (collectDirective stack definitionPool schemaMap) ds []"
| "collectNewTypeDefinitions stack allDefinitions definitionPool (EnumTypeDefinition n ds vs)
     schemaMap =
     bindE (forEachE (collectDirective stack definitionPool schemaMap) ds [])
       (forEachE (\<lambda>v. forEachE (collectDirective stack definitionPool schemaMap)
          (ev_directives v)) vs)"
| "collectNewTypeDefinitions stack allDefinitions definitionPool
     (InputObjectTypeDefinition n ds fs) schemaMap =
     bindE (forEachE (collectDirective stack definitionPool schemaMap) ds [])
       (forEachE (collectInputValue stack definitionPool schemaMap) fs)"
| "collectNewTypeDefinitions stack allDefinitions definitionPool
     (InterfaceTypeDefinition interfaceName ds fs) schemaMap =
     bindE (forEachE (collectDirective stack definitionPool schemaMap) ds [])
       (\<lambda>acc. bindE (forEachE (collectField stack definitionPool schemaMap) fs acc)
          (\<lambda>acc'. Inr (acc' @ filter (implementsInterface interfaceName) allDefinitions)))"
| "collectNewTypeDefinitions stack allDefinitions definitionPool (UnionTypeDefinition n ds ts)
     schemaMap =
     bindE (forEachE (collectDirective stack definitionPool schemaMap) ds [])
       (forEachE (collectType definitionPool schemaMap) ts)"
| "collectNewTypeDefinitions stack allDefinitions definitionPool
     (ObjectTypeDefinition n interfaces ds fs) schemaMap =
     bindE (forEachE (collectDirective stack definitionPool schemaMap) ds [])
       (\<lambda>acc. bindE (forEachE (collectInterface definitionPool schemaMap) interfaces acc)
          (forEachE (\<lambda>field acc'. bindE (collectField stack definitionPool schemaMap field acc')
             (forEachE (collectInputValue stack definitionPool schemaMap) (fd_arguments field)))
             fs))"
| "collectNewTypeDefinitions stack allDefinitions definitionPool (DirectiveDefinition n as)
     schemaMap = Inr []"
| "collectNewTypeDefinitions stack allDefinitions definitionPool (SchemaDefinition ds ots)
     schemaMap =
     bindE (forEachE (collectDirective stack definitionPool schemaMap) ds [])
       (forEachE (\<lambda>operationType. collectType definitionPool schemaMap (ot_type operationType))
          ots)"
| "collectNewTypeDefinitions stack allDefinitions definitionPool (OperationDefinition n ds ss)
     schemaMap =
     bindE (forEachE (collectDirective stack definitionPool schemaMap) ds [])
       (forEachE (collectFragments stack definitionPool schemaMap) ss)"
| "collectNewTypeDefinitions stack allDefinitions definitionPool (FragmentDefinition n ds ss)
     schemaMap =
     bindE (forEachE (collectDirective stack definitionPool schemaMap) ds [])
       (forEachE (collectFragments stack definitionPool schemaMap) ss)"

section \<open>References of a definition\<close>

text \<open>
  The identities that a definition refers to and that the completion examines: the named
  type of a field or of an argument (\<open>TypeRef\<close>, the built-in scalars are exempt), an
  applied directive (\<open>DirectiveRef\<close>, the built-in directives are exempt), and a
  declared interface, a union member, a root operation type or a fragment spread
  (\<open>NameRef\<close>, never exempt).
\<close>

datatype reference = TypeRef string | DirectiveRef string | NameRef string

fun refName :: "reference \<Rightarrow> string" where
  "refName (TypeRef n) = n"
| "refName (DirectiveRef n) = n"
| "refName (NameRef n) = n"

fun isDirectiveRef :: "reference \<Rightarrow> bool" where
  "isDirectiveRef (DirectiveRef n) = True"
| "isDirectiveRef r = False"

text \<open>A reference is resolved by a pool that has a definition of that name, or by exemption.\<close>

fun resolved :: "definition_node list \<Rightarrow> reference \<Rightarrow> bool" where
  "resolved pool (TypeRef n) = (inPool pool n \<or> n \<in> set builtinTypes)"
| "resolved pool (DirectiveRef n) = (inPool pool n \<or> n \<in> set builtinDirectives)"
| "resolved pool (NameRef n) = inPool pool n"

definition directiveRefs :: "directive_node list \<Rightarrow> reference list" where
  "directiveRefs ds = map (\<lambda>d. DirectiveRef (directive_name d)) ds"

definition inputValueRefs :: "input_value \<Rightarrow> reference list" where
  "inputValueRefs a = TypeRef (getNamedType (iv_type a)) # directiveRefs (iv_directives a)"

definition fieldRefs :: "field_def \<Rightarrow> reference list" where
  "fieldRefs f = TypeRef (getNamedType (fd_type f)) # directiveRefs (fd_directives f)"

text \<open>
  In a selection set: every fragment spread, and the directives of every selection that
  has a selection set with at least one selection.
\<close>

fun selectionRefs :: "selection \<Rightarrow> reference list"
and selectionSetRefs :: "directive_node list \<Rightarrow> selection list \<Rightarrow> reference list" where
  "selectionRefs (FragmentSpread n ds) = [NameRef n]"
| "selectionRefs (Field n ds None) = []"
| "selectionRefs (Field n ds (Some selections)) = selectionSetRefs ds selections"
| "selectionRefs (InlineFragment ds selections) = selectionSetRefs ds selections"
| "selectionSetRefs ds [] = []"
| "selectionSetRefs ds (s # rest) = directiveRefs ds @ selectionRefs s @ selectionSetRefs ds rest"

fun references :: "definition_node \<Rightarrow> reference list" where
  "references (ScalarTypeDefinition n ds) = directiveRefs ds"
| "references (EnumTypeDefinition n ds vs) =
     directiveRefs ds @ concat (map (\<lambda>v. directiveRefs (ev_directives v)) vs)"
| "references (InputObjectTypeDefinition n ds fs) =
     directiveRefs ds @ concat (map inputValueRefs fs)"
| "references (InterfaceTypeDefinition n ds fs) = directiveRefs ds @ concat (map fieldRefs fs)"
| "references (UnionTypeDefinition n ds ts) = directiveRefs ds @ map NameRef ts"
| "references (ObjectTypeDefinition n interfaces ds fs) =
     directiveRefs ds @ map NameRef interfaces
       @ concat (map (\<lambda>f. fieldRefs f @ concat (map inputValueRefs (fd_arguments f))) fs)"
| "references (DirectiveDefinition n as) = []"
| "references (SchemaDefinition ds ots) = directiveRefs ds @ map (\<lambda>ot. NameRef (ot_type ot)) ots"
| "references (OperationDefinition n ds ss) = directiveRefs ds @ concat (map selectionRefs ss)"
| "references (FragmentDefinition n ds ss) = directiveRefs ds @ concat (map selectionRefs ss)"

text \<open>The object types of \<^verbatim>\<open>allDefinitions\<close> that an interface definition pulls in.\<close>

fun implementations :: "definition_node \<Rightarrow> definition_node list \<Rightarrow> definition_node list" where
  "implementations (InterfaceTypeDefinition n ds fs) allDefinitions =
     filter (implementsInterface n) allDefinitions"
| "implementations d allDefinitions = []"

text \<open>The messages of the errors that a failed lookup of the name \<open>n\<close> throws.\<close>

definition notFound :: "string \<Rightarrow> string set" where
  "notFound n =
     {typeNotFound n, interfaceNotFound n, fragmentNotFound n, directiveNotFound n}
     \<union> {fieldTypeNotFound c n | c. True}"

fun isDirectiveDefinition :: "definition_node \<Rightarrow> bool" where
  "isDirectiveDefinition (DirectiveDefinition n as) = True"
| "isDirectiveDefinition d = False"

text \<open>The definition that the lookup map holds for a reference.\<close>

definition matched :: "(string \<rightharpoonup> definition_node) \<Rightarrow> reference \<Rightarrow> definition_node \<Rightarrow> bool" where
  "matched schemaMap r m =
     (schemaMap (refName r) = Some m \<and> (isDirectiveRef r \<longrightarrow> isDirectiveDefinition m))"

subsection \<open>What a collection step returns\<close>

lemma bindE_Inr: "bindE m f = Inr r \<longleftrightarrow> (\<exists>x. m = Inr x \<and> f x = Inr r)"
  by (cases m) (simp_all add: bindE_def)

lemma bindE_Inl: "bindE m f = Inl e \<longleftrightarrow> (m = Inl e \<or> (\<exists>x. m = Inr x \<and> f x = Inl e))"
  by (cases m) (simp_all add: bindE_def)

text \<open>
  \<open>sound\<close>: a collector \<open>f\<close> that returns has appended to its accumulator values of
  the lookup map, among them a match for every reference of its argument that the pool
  does not resolve, and nothing when the pool resolves them all; an \<open>Error\<close> that it
  throws names an identity that is neither in the pool nor in the map, and an inherited
  property that it finds has the name of such an identity; a \<open>TypeError\<close> comes from a
  directive name that a definition other than a directive definition or an inherited
  property matches, a \<open>RangeError\<close> from a directive name that a directive definition
  matches.
\<close>

definition returnsFor ::
  "definition_node list \<Rightarrow> (string \<rightharpoonup> definition_node) \<Rightarrow> reference list \<Rightarrow>
   definition_node list \<Rightarrow> definition_node list \<Rightarrow> bool" where
  "returnsFor pool schemaMap refs acc acc' =
     (\<exists>new. acc' = acc @ new \<and> set new \<subseteq> ran schemaMap \<and>
        (\<forall>r\<in>set refs. resolved pool r \<or> (\<exists>m\<in>set new. matched schemaMap r m)) \<and>
        ((\<forall>r\<in>set refs. resolved pool r) \<longrightarrow> new = []))"

fun throwsFor ::
  "definition_node list \<Rightarrow> (string \<rightharpoonup> definition_node) \<Rightarrow> error \<Rightarrow> bool" where
  "throwsFor pool schemaMap (Error msg) =
     (\<exists>n. schemaMap n = None \<and> \<not> inPool pool n \<and> n \<notin> set objectPrototypeNames \<and>
          msg \<in> notFound n)"
| "throwsFor pool schemaMap (PrototypeProperty n) =
     (schemaMap n = None \<and> \<not> inPool pool n \<and> n \<in> set objectPrototypeNames)"
| "throwsFor pool schemaMap TypeError =
     (\<exists>n. \<not> inPool pool n \<and> n \<notin> set builtinDirectives \<and>
          (case schemaMap n of None \<Rightarrow> n \<in> set objectPrototypeNames
           | Some m \<Rightarrow> \<not> isDirectiveDefinition m))"
| "throwsFor pool schemaMap RangeError =
     (\<exists>n m. \<not> inPool pool n \<and> n \<notin> set builtinDirectives \<and> schemaMap n = Some m \<and>
            isDirectiveDefinition m)"

definition sound ::
  "definition_node list \<Rightarrow> (string \<rightharpoonup> definition_node) \<Rightarrow>
   ('x \<Rightarrow> definition_node list \<Rightarrow> error + definition_node list) \<Rightarrow> ('x \<Rightarrow> reference list) \<Rightarrow> bool" where
  "sound pool schemaMap f refs =
     (\<forall>x acc. (\<forall>acc'. f x acc = Inr acc' \<longrightarrow> returnsFor pool schemaMap (refs x) acc acc') \<and>
              (\<forall>e. f x acc = Inl e \<longrightarrow> throwsFor pool schemaMap e))"

lemma soundI:
  assumes "\<And>x acc acc'. f x acc = Inr acc' \<Longrightarrow> returnsFor pool schemaMap (refs x) acc acc'"
    and "\<And>x acc e. f x acc = Inl e \<Longrightarrow> throwsFor pool schemaMap e"
  shows "sound pool schemaMap f refs"
  unfolding sound_def using assms by blast

lemma sound_Inr:
  "sound pool schemaMap f refs \<Longrightarrow> f x acc = Inr acc' \<Longrightarrow> returnsFor pool schemaMap (refs x) acc acc'"
  unfolding sound_def by blast

lemma sound_Inl:
  "sound pool schemaMap f refs \<Longrightarrow> f x acc = Inl e \<Longrightarrow> throwsFor pool schemaMap e"
  unfolding sound_def by blast

lemma returnsFor_refl: "returnsFor pool schemaMap [] acc acc"
  by (simp add: returnsFor_def)

lemma returnsFor_resolved:
  "\<forall>r\<in>set refs. resolved pool r \<Longrightarrow> returnsFor pool schemaMap refs acc acc"
  by (simp add: returnsFor_def)

lemma returnsFor_trans:
  assumes "returnsFor pool schemaMap refs1 acc acc1" and "returnsFor pool schemaMap refs2 acc1 acc2"
  shows "returnsFor pool schemaMap (refs1 @ refs2) acc acc2"
proof -
  from assms(1) obtain new1 where n1: "acc1 = acc @ new1" "set new1 \<subseteq> ran schemaMap"
    "\<forall>r\<in>set refs1. resolved pool r \<or> (\<exists>m\<in>set new1. matched schemaMap r m)"
    "(\<forall>r\<in>set refs1. resolved pool r) \<longrightarrow> new1 = []"
    unfolding returnsFor_def by blast
  from assms(2) obtain new2 where n2: "acc2 = acc1 @ new2" "set new2 \<subseteq> ran schemaMap"
    "\<forall>r\<in>set refs2. resolved pool r \<or> (\<exists>m\<in>set new2. matched schemaMap r m)"
    "(\<forall>r\<in>set refs2. resolved pool r) \<longrightarrow> new2 = []"
    unfolding returnsFor_def by blast
  show ?thesis unfolding returnsFor_def
  proof (intro exI[of _ "new1 @ new2"] conjI)
    show "acc2 = acc @ new1 @ new2" using n1(1) n2(1) by simp
    show "set (new1 @ new2) \<subseteq> ran schemaMap" using n1(2) n2(2) by simp
    show "\<forall>r\<in>set (refs1 @ refs2). resolved pool r \<or> (\<exists>m\<in>set (new1 @ new2). matched schemaMap r m)"
      using n1(3) n2(3) by auto
    show "(\<forall>r\<in>set (refs1 @ refs2). resolved pool r) \<longrightarrow> new1 @ new2 = []"
      using n1(4) n2(4) by auto
  qed
qed

lemma sound_forEachE:
  assumes "sound pool schemaMap f refs"
  shows "sound pool schemaMap (\<lambda>x. forEachE f (g x)) (\<lambda>x. concat (map refs (g x)))"
proof -
  have ret: "forEachE f xs acc = Inr acc' \<Longrightarrow> returnsFor pool schemaMap (concat (map refs xs)) acc acc'"
    for xs acc acc'
  proof (induction xs arbitrary: acc)
    case Nil
    then show ?case by (simp add: returnsFor_refl)
  next
    case (Cons x xs)
    from Cons.prems obtain a1 where fx: "f x acc = Inr a1" and rest: "forEachE f xs a1 = Inr acc'"
      by (auto split: sum.splits)
    show ?case
      using returnsFor_trans[OF sound_Inr[OF assms fx] Cons.IH[OF rest]] by simp
  qed
  have thr: "forEachE f xs acc = Inl e \<Longrightarrow> throwsFor pool schemaMap e" for xs acc e
  proof (induction xs arbitrary: acc)
    case Nil
    then show ?case by simp
  next
    case (Cons x xs)
    show ?case
    proof (cases "f x acc")
      case (Inl e')
      with Cons.prems have "f x acc = Inl e" by simp
      then show ?thesis by (rule sound_Inl[OF assms])
    next
      case (Inr a1)
      with Cons.prems have "forEachE f xs a1 = Inl e" by simp
      then show ?thesis by (rule Cons.IH)
    qed
  qed
  show ?thesis by (rule soundI) (erule ret, erule thr)
qed

lemma sound_bindE:
  assumes "sound pool schemaMap f refs1" and "sound pool schemaMap g refs2"
  shows "sound pool schemaMap (\<lambda>x acc. bindE (f x acc) (g x)) (\<lambda>x. refs1 x @ refs2 x)"
proof (rule soundI)
  fix x acc acc' assume "bindE (f x acc) (g x) = Inr acc'"
  then obtain a1 where "f x acc = Inr a1" "g x a1 = Inr acc'" by (auto simp: bindE_Inr)
  then show "returnsFor pool schemaMap (refs1 x @ refs2 x) acc acc'"
    using returnsFor_trans sound_Inr[OF assms(1)] sound_Inr[OF assms(2)] by blast
next
  fix x acc e assume "bindE (f x acc) (g x) = Inl e"
  then consider "f x acc = Inl e" | a1 where "f x acc = Inr a1" "g x a1 = Inl e"
    by (auto simp: bindE_Inl)
  then show "throwsFor pool schemaMap e"
    using sound_Inl[OF assms(1)] sound_Inl[OF assms(2)] by cases blast+
qed

text \<open>A single lookup, as every collector does it.\<close>

lemma lookup_returns:
  assumes "(case schemaMap (refName r) of None \<Rightarrow> Inl e | Some m \<Rightarrow> Inr (acc @ [m])) = Inr acc'"
    and "\<not> isDirectiveRef r" and "\<not> resolved pool r"
  shows "returnsFor pool schemaMap [r] acc acc'"
proof -
  from assms(1) obtain m where m: "schemaMap (refName r) = Some m" and r: "acc' = acc @ [m]"
    by (auto split: option.splits)
  show ?thesis unfolding returnsFor_def
    by (rule exI[of _ "[m]"]) (use m r assms(2,3) in \<open>auto simp: matched_def intro: ranI\<close>)
qed

lemma lookup_throws:
  assumes "(case schemaMap n of None \<Rightarrow> Inl (missing n msg') | Some m \<Rightarrow> Inr (acc @ [m])) = Inl e"
    and "\<not> inPool pool n" and "msg' \<in> notFound n"
  shows "throwsFor pool schemaMap e"
proof -
  from assms(1) have none: "schemaMap n = None" and e: "e = missing n msg'"
    by (auto split: option.splits)
  show ?thesis
  proof (cases "n \<in> set objectPrototypeNames")
    case True
    with e none assms(2) show ?thesis by (simp add: missing_def)
  next
    case False
    with e none assms(2,3) show ?thesis by (auto simp: missing_def)
  qed
qed

lemma sound_collectType:
  "sound pool schemaMap (\<lambda>x. collectType pool schemaMap (f x)) (\<lambda>x. [NameRef (f x)])"
proof (rule soundI)
  fix x acc acc' assume res: "collectType pool schemaMap (f x) acc = Inr acc'"
  show "returnsFor pool schemaMap [NameRef (f x)] acc acc'"
  proof (cases "inPool pool (f x)")
    case True
    with res show ?thesis by (simp add: collectType_def returnsFor_resolved)
  next
    case False
    with res show ?thesis
      using lookup_returns[where schemaMap=schemaMap and r="NameRef (f x)" and acc=acc and acc'=acc' and pool=pool]
      by (simp add: collectType_def)
  qed
next
  fix x acc e assume res: "collectType pool schemaMap (f x) acc = Inl e"
  then have np: "\<not> inPool pool (f x)" by (auto simp: collectType_def split: if_splits)
  with res show "throwsFor pool schemaMap e"
    using lookup_throws[where schemaMap=schemaMap and n="f x" and acc=acc and e=e and pool=pool]
    by (simp add: collectType_def notFound_def)
qed

lemma sound_collectInterface:
  "sound pool schemaMap (collectInterface pool schemaMap) (\<lambda>x. [NameRef x])"
proof (rule soundI)
  fix x acc acc' assume res: "collectInterface pool schemaMap x acc = Inr acc'"
  show "returnsFor pool schemaMap [NameRef x] acc acc'"
  proof (cases "inPool pool x")
    case True
    with res show ?thesis by (simp add: collectInterface_def returnsFor_resolved)
  next
    case False
    with res show ?thesis
      using lookup_returns[where schemaMap=schemaMap and r="NameRef x" and acc=acc and acc'=acc' and pool=pool]
      by (simp add: collectInterface_def)
  qed
next
  fix x acc e assume res: "collectInterface pool schemaMap x acc = Inl e"
  then have np: "\<not> inPool pool x" by (auto simp: collectInterface_def split: if_splits)
  with res show "throwsFor pool schemaMap e"
    using lookup_throws[where schemaMap=schemaMap and n=x and acc=acc and e=e and pool=pool]
    by (simp add: collectInterface_def notFound_def)
qed

lemma directiveRefs_concat:
  "directiveRefs ds = concat (map (\<lambda>d. [DirectiveRef (directive_name d)]) ds)"
  by (simp add: directiveRefs_def)

lemma sound_directives:
  assumes "sound pool schemaMap cd (\<lambda>d. [DirectiveRef (directive_name d)])"
  shows "sound pool schemaMap (\<lambda>x. forEachE cd (g x)) (\<lambda>x. directiveRefs (g x))"
  using sound_forEachE[OF assms, of g] by (simp add: directiveRefs_concat)

lemma sound_collectNodeWith:
  assumes cd: "sound pool schemaMap cd (\<lambda>d. [DirectiveRef (directive_name d)])"
  shows "sound pool schemaMap (\<lambda>x. collectNodeWith cd pool schemaMap (nm x) (ty x) (ds x))
           (\<lambda>x. TypeRef (getNamedType (ty x)) # directiveRefs (ds x))"
proof -
  let ?look = "\<lambda>x acc. (if \<not> inPool pool (getNamedType (ty x)) \<and> getNamedType (ty x) \<notin> set builtinTypes
       then (case schemaMap (getNamedType (ty x)) of
              None \<Rightarrow> Inl (missing (getNamedType (ty x))
                              (fieldTypeNotFound (nm x) (getNamedType (ty x))))
            | Some argTypeMatch \<Rightarrow> Inr (acc @ [argTypeMatch]))
       else Inr acc)"
  have look: "sound pool schemaMap ?look (\<lambda>x. [TypeRef (getNamedType (ty x))])"
  proof (rule soundI)
    fix x acc acc' assume res: "?look x acc = Inr acc'"
    show "returnsFor pool schemaMap [TypeRef (getNamedType (ty x))] acc acc'"
    proof (cases "\<not> inPool pool (getNamedType (ty x)) \<and> getNamedType (ty x) \<notin> set builtinTypes")
      case True
      with res show ?thesis
        using lookup_returns[where schemaMap=schemaMap and r="TypeRef (getNamedType (ty x))" and acc=acc and acc'=acc' and pool=pool]
        by simp
    next
      case False
      with res have "acc' = acc" by auto
      with False show ?thesis using returnsFor_resolved[of "[TypeRef (getNamedType (ty x))]" pool]
        by auto
    qed
  next
    fix x acc e assume res: "?look x acc = Inl e"
    then have np: "\<not> inPool pool (getNamedType (ty x))" by (auto split: if_splits)
    have "fieldTypeNotFound (nm x) (getNamedType (ty x)) \<in> notFound (getNamedType (ty x))"
      unfolding notFound_def by blast
    with res np show "throwsFor pool schemaMap e"
      using lookup_throws[where schemaMap=schemaMap and n="getNamedType (ty x)" and acc=acc and e=e and pool=pool]
      by (auto split: if_splits)
  qed
  have "sound pool schemaMap (\<lambda>x acc. bindE (?look x acc) (forEachE cd (ds x)))
           (\<lambda>x. [TypeRef (getNamedType (ty x))] @ directiveRefs (ds x))"
    by (rule sound_bindE[OF look sound_directives[OF cd]])
  then show ?thesis by (simp add: collectNodeWith_def[abs_def] Let_def)
qed

lemma sound_collectDirective:
  "sound pool schemaMap (collectDirective stack pool schemaMap)
     (\<lambda>d. [DirectiveRef (directive_name d)])"
proof (induction stack)
  case 0
  show ?case
  proof (rule soundI)
    fix d acc acc' assume res: "collectDirective 0 pool schemaMap d acc = Inr acc'"
    then have "resolved pool (DirectiveRef (directive_name d)) \<and> acc' = acc"
      by (auto simp: Let_def split: if_splits option.splits definition_node.splits)
    then show "returnsFor pool schemaMap [DirectiveRef (directive_name d)] acc acc'"
      using returnsFor_resolved[of "[DirectiveRef (directive_name d)]" pool] by simp
  next
    fix d acc e assume res: "collectDirective 0 pool schemaMap d acc = Inl e"
    then have un: "\<not> inPool pool (directive_name d)"
      and nb: "directive_name d \<notin> set builtinDirectives"
      by (auto simp: Let_def split: if_splits)
    show "throwsFor pool schemaMap e"
    proof (cases "schemaMap (directive_name d)")
      case None
      show ?thesis
      proof (cases "directive_name d \<in> set objectPrototypeNames")
        case True
        with None res un nb have "e = TypeError" by (simp add: Let_def)
        then show ?thesis using None un nb True by auto
      next
        case False
        with None res un nb have "e = Error (directiveNotFound (directive_name d))"
          by (simp add: Let_def)
        moreover have "directiveNotFound (directive_name d) \<in> notFound (directive_name d)"
          unfolding notFound_def by blast
        ultimately show ?thesis using None un False by auto
      qed
    next
      case (Some found)
      show ?thesis
      proof (cases "isDirectiveDefinition found")
        case True
        with Some res un nb have "e = RangeError" by (cases found) (simp_all add: Let_def)
        then show ?thesis using Some un nb True by auto
      next
        case False
        with Some res un nb have "e = TypeError" by (cases found) (simp_all add: Let_def)
        then show ?thesis using Some un nb False by auto
      qed
    qed
  qed
next
  case (Suc stack)
  let ?inner = "\<lambda>a. collectNodeWith (collectDirective stack pool schemaMap)
                          pool schemaMap (iv_name a) (iv_type a) (iv_directives a)"
  have inner: "sound pool schemaMap (\<lambda>args. forEachE ?inner args)
                 (\<lambda>args. concat (map (\<lambda>a. TypeRef (getNamedType (iv_type a)) # directiveRefs (iv_directives a)) args))"
    using sound_forEachE[OF sound_collectNodeWith[OF Suc.IH, of iv_name iv_type iv_directives], of "\<lambda>x. x"] .
  show ?case
  proof (rule soundI)
    fix d acc acc' assume res: "collectDirective (Suc stack) pool schemaMap d acc = Inr acc'"
    show "returnsFor pool schemaMap [DirectiveRef (directive_name d)] acc acc'"
    proof (cases "\<not> inPool pool (directive_name d) \<and> directive_name d \<notin> set builtinDirectives")
      case False
      with res have "acc' = acc" by (auto simp: Let_def)
      with False show ?thesis
        using returnsFor_resolved[of "[DirectiveRef (directive_name d)]" pool] by auto
    next
      case True
      with res obtain n args where
        found: "schemaMap (directive_name d) = Some (DirectiveDefinition n args)"
        by (auto simp: Let_def split: option.splits definition_node.splits if_splits)
      with True res obtain acc1 where
        fe: "forEachE ?inner args acc = Inr acc1"
        and r: "acc' = acc1 @ [DirectiveDefinition n args]"
        by (auto simp: Let_def bindE_Inr)
      from sound_Inr[OF inner fe] obtain new1 where
        n1: "acc1 = acc @ new1" "set new1 \<subseteq> ran schemaMap"
        unfolding returnsFor_def by blast
      show ?thesis unfolding returnsFor_def
        by (rule exI[of _ "new1 @ [DirectiveDefinition n args]"])
           (use n1 r found True in \<open>auto simp: matched_def intro: ranI\<close>)
    qed
  next
    fix d acc e assume res: "collectDirective (Suc stack) pool schemaMap d acc = Inl e"
    then have un: "\<not> inPool pool (directive_name d)"
      and nb: "directive_name d \<notin> set builtinDirectives"
      by (auto simp: Let_def split: if_splits)
    show "throwsFor pool schemaMap e"
    proof (cases "schemaMap (directive_name d)")
      case None
      show ?thesis
      proof (cases "directive_name d \<in> set objectPrototypeNames")
        case True
        with None res un nb have "e = TypeError" by (simp add: Let_def)
        then show ?thesis using None un nb True by auto
      next
        case False
        with None res un nb have "e = Error (directiveNotFound (directive_name d))"
          by (simp add: Let_def)
        moreover have "directiveNotFound (directive_name d) \<in> notFound (directive_name d)"
          unfolding notFound_def by blast
        ultimately show ?thesis using None un False by auto
      qed
    next
      case (Some found)
      show ?thesis
      proof (cases "isDirectiveDefinition found")
        case False
        with Some res un nb have "e = TypeError" by (cases found) (simp_all add: Let_def)
        then show ?thesis using Some un nb False by auto
      next
        case True
        then obtain n args where f: "found = DirectiveDefinition n args" by (cases found) auto
        with Some res have "forEachE ?inner args acc = Inl e"
          by (auto simp: Let_def bindE_Inl split: if_splits)
        then show ?thesis by (rule sound_Inl[OF inner])
      qed
    qed
  qed
qed

lemma sound_collectInputValue:
  "sound pool schemaMap (collectInputValue stack pool schemaMap) inputValueRefs"
  using sound_collectNodeWith[OF sound_collectDirective, of pool schemaMap stack iv_name iv_type iv_directives]
  by (simp add: collectInputValue_def[abs_def] collectNode_def inputValueRefs_def[abs_def])

lemma sound_collectField:
  "sound pool schemaMap (collectField stack pool schemaMap) fieldRefs"
  using sound_collectNodeWith[OF sound_collectDirective, of pool schemaMap stack fd_name fd_type fd_directives]
  by (simp add: collectField_def[abs_def] collectNode_def fieldRefs_def[abs_def])


lemma sound_collectFragments_aux:
  "(collectFragments stack pool schemaMap sel acc = Inr acc' \<longrightarrow>
      returnsFor pool schemaMap (selectionRefs sel) acc acc') \<and>
   (collectFragments stack pool schemaMap sel acc = Inl e \<longrightarrow>
      throwsFor pool schemaMap e)"
  "(collectSelections stack pool schemaMap nds sels acc = Inr acc' \<longrightarrow>
      returnsFor pool schemaMap (selectionSetRefs nds sels) acc acc') \<and>
   (collectSelections stack pool schemaMap nds sels acc = Inl e \<longrightarrow>
      throwsFor pool schemaMap e)"
proof (induction stack pool schemaMap sel acc and stack pool schemaMap nds sels acc
       arbitrary: acc' and acc' rule: collectFragments_collectSelections.induct)
  case (1 stack definitionPool schemaMap fragmentName ds acc)
  have "sound definitionPool schemaMap (\<lambda>x. collectType definitionPool schemaMap x) (\<lambda>x. [NameRef x])"
    by (rule sound_collectType)
  show ?case
  proof (cases "inPool definitionPool fragmentName")
    case True
    then show ?thesis by (simp add: returnsFor_resolved)
  next
    case False
    have nf: "fragmentNotFound fragmentName \<in> notFound fragmentName"
      unfolding notFound_def by blast
    have eq: "collectFragments stack definitionPool schemaMap (FragmentSpread fragmentName ds) acc =
            (case schemaMap fragmentName of
               None \<Rightarrow> Inl (missing fragmentName (fragmentNotFound fragmentName))
             | Some m \<Rightarrow> Inr (acc @ [m]))"
      using False by simp
    show ?thesis
    proof (intro conjI impI)
      assume "collectFragments stack definitionPool schemaMap (FragmentSpread fragmentName ds) acc = Inr acc'"
      then have "(case schemaMap (refName (NameRef fragmentName)) of
                    None \<Rightarrow> Inl (missing fragmentName (fragmentNotFound fragmentName))
                  | Some m \<Rightarrow> Inr (acc @ [m])) = Inr acc'"
        using eq by simp
      then have "returnsFor definitionPool schemaMap [NameRef fragmentName] acc acc'"
        by (rule lookup_returns) (use False in simp_all)
      then show "returnsFor definitionPool schemaMap (selectionRefs (FragmentSpread fragmentName ds)) acc acc'"
        by simp
    next
      assume "collectFragments stack definitionPool schemaMap (FragmentSpread fragmentName ds) acc
                = Inl e"
      then have "(case schemaMap fragmentName of
                    None \<Rightarrow> Inl (missing fragmentName (fragmentNotFound fragmentName))
                  | Some m \<Rightarrow> Inr (acc @ [m])) = Inl e"
        using eq by simp
      then show "throwsFor definitionPool schemaMap e"
        using False nf by (rule lookup_throws)
    qed
  qed
next
  case (2 stack definitionPool schemaMap n ds acc)
  show ?case by (auto simp: returnsFor_refl)
next
  case (3 stack definitionPool schemaMap n ds selections acc)
  then show ?case by simp
next
  case (4 stack definitionPool schemaMap ds selections acc)
  then show ?case by simp
next
  case (5 stack definitionPool schemaMap nodeDirectives acc)
  show ?case by (auto simp: returnsFor_refl)
next
  case (6 stack definitionPool schemaMap nodeDirectives selection rest acc)
  have dirs: "sound definitionPool schemaMap
                (\<lambda>x. forEachE (collectDirective stack definitionPool schemaMap) nodeDirectives)
                (\<lambda>x. directiveRefs nodeDirectives)"
    by (rule sound_directives[OF sound_collectDirective])
  show ?case
  proof (intro conjI impI)
    assume res: "collectSelections stack definitionPool schemaMap nodeDirectives (selection # rest) acc
                   = Inr acc'"
    then obtain acc1 acc2 where
      a1: "forEachE (collectDirective stack definitionPool schemaMap) nodeDirectives acc = Inr acc1"
      and a2: "collectFragments stack definitionPool schemaMap selection acc1 = Inr acc2"
      and a3: "collectSelections stack definitionPool schemaMap nodeDirectives rest acc2 = Inr acc'"
      by (auto simp: bindE_Inr)
    have r1: "returnsFor definitionPool schemaMap (directiveRefs nodeDirectives) acc acc1"
      using sound_Inr[OF dirs a1] .
    have r2: "returnsFor definitionPool schemaMap (selectionRefs selection) acc1 acc2"
      using "6.IH"(1) a2 by blast
    have r3: "returnsFor definitionPool schemaMap (selectionSetRefs nodeDirectives rest) acc2 acc'"
      using "6.IH"(2) a3 by blast
    show "returnsFor definitionPool schemaMap (selectionSetRefs nodeDirectives (selection # rest)) acc acc'"
      using returnsFor_trans[OF r1 returnsFor_trans[OF r2 r3]] by simp
  next
    assume res: "collectSelections stack definitionPool schemaMap nodeDirectives (selection # rest) acc
                   = Inl e"
    show "throwsFor definitionPool schemaMap e"
    proof (cases "forEachE (collectDirective stack definitionPool schemaMap) nodeDirectives acc")
      case (Inl e')
      with res have "forEachE (collectDirective stack definitionPool schemaMap) nodeDirectives acc
                       = Inl e"
        by (simp add: bindE_def)
      then show ?thesis by (rule sound_Inl[OF dirs])
    next
      case (Inr acc1)
      show ?thesis
      proof (cases "collectFragments stack definitionPool schemaMap selection acc1")
        case (Inl e')
        with Inr res have "collectFragments stack definitionPool schemaMap selection acc1
                             = Inl e"
          by (simp add: bindE_def)
        then show ?thesis using "6.IH"(1) by blast
      next
        case inr2: (Inr acc2)
        with Inr res have "collectSelections stack definitionPool schemaMap nodeDirectives rest acc2
                             = Inl e"
          by (simp add: bindE_def)
        then show ?thesis using "6.IH"(2) by blast
      qed
    qed
  qed
qed

lemma sound_collectFragments:
  "sound pool schemaMap (collectFragments stack pool schemaMap) selectionRefs"
  by (rule soundI) (use sound_collectFragments_aux(1) in blast)+

text \<open>
  \<^verbatim>\<open>collectNewTypeDefinitions\<close> returns matches for the references of the definition,
  followed by the implementations of an interface.
\<close>

lemma collectNewTypeDefinitions_sound:
  "(collectNewTypeDefinitions stack allDefinitions pool d schemaMap = Inr collected \<longrightarrow>
      (\<exists>new. collected = new @ implementations d allDefinitions \<and>
             returnsFor pool schemaMap (references d) [] new)) \<and>
   (collectNewTypeDefinitions stack allDefinitions pool d schemaMap = Inl e \<longrightarrow>
      throwsFor pool schemaMap e)"
proof -
  note cd = sound_collectDirective[of pool schemaMap stack]
  have dirs: "sound pool schemaMap (\<lambda>x. forEachE (collectDirective stack pool schemaMap) ds)
                (\<lambda>x. directiveRefs ds)" for ds
    by (rule sound_directives[OF cd])
  show ?thesis
  proof (cases d)
    case (ScalarTypeDefinition n ds)
    then show ?thesis using sound_Inr[OF dirs[of ds], where acc="[]"] sound_Inl[OF dirs[of ds], where acc="[]"]
      by simp
  next
    case (ObjectTypeDefinition n ifs ds fs)
    let ?field = "\<lambda>field acc'. bindE (collectField stack pool schemaMap field acc')
             (forEachE (collectInputValue stack pool schemaMap) (fd_arguments field))"
    have f: "sound pool schemaMap ?field
               (\<lambda>f. fieldRefs f @ concat (map inputValueRefs (fd_arguments f)))"
      by (rule sound_bindE[OF sound_collectField sound_forEachE[OF sound_collectInputValue]])
    have "sound pool schemaMap
            (\<lambda>x acc. bindE (forEachE (collectDirective stack pool schemaMap) ds acc)
               (\<lambda>acc. bindE (forEachE (collectInterface pool schemaMap) ifs acc) (forEachE ?field fs)))
            (\<lambda>x. directiveRefs ds @ concat (map (\<lambda>x. [NameRef x]) ifs)
               @ concat (map (\<lambda>f. fieldRefs f @ concat (map inputValueRefs (fd_arguments f))) fs))"
      by (rule sound_bindE[OF dirs sound_bindE[OF sound_forEachE[OF sound_collectInterface]
              sound_forEachE[OF f]]])
    from sound_Inr[OF this, where acc="[]"] sound_Inl[OF this, where acc="[]"]
    show ?thesis using ObjectTypeDefinition by simp
  next
    case (InterfaceTypeDefinition n ds fs)
    have s: "sound pool schemaMap
            (\<lambda>x acc. bindE (forEachE (collectDirective stack pool schemaMap) ds acc)
               (forEachE (collectField stack pool schemaMap) fs))
            (\<lambda>x. directiveRefs ds @ concat (map fieldRefs fs))"
      by (rule sound_bindE[OF dirs sound_forEachE[OF sound_collectField]])
    show ?thesis
    proof (intro conjI impI)
      assume "collectNewTypeDefinitions stack allDefinitions pool d schemaMap = Inr collected"
      with InterfaceTypeDefinition obtain a2 where
        a2: "bindE (forEachE (collectDirective stack pool schemaMap) ds [])
               (forEachE (collectField stack pool schemaMap) fs) = Inr a2"
        and c: "collected = a2 @ filter (implementsInterface n) allDefinitions"
        by (auto simp: bindE_Inr)
      from sound_Inr[OF s a2] c InterfaceTypeDefinition
      show "\<exists>new. collected = new @ implementations d allDefinitions \<and>
             returnsFor pool schemaMap (references d) [] new"
        by auto
    next
      assume "collectNewTypeDefinitions stack allDefinitions pool d schemaMap = Inl e"
      with InterfaceTypeDefinition have
        "bindE (forEachE (collectDirective stack pool schemaMap) ds [])
               (forEachE (collectField stack pool schemaMap) fs) = Inl e"
        by (auto simp: bindE_Inl bindE_Inr)
      then show "throwsFor pool schemaMap e" by (rule sound_Inl[OF s])
    qed
  next
    case (UnionTypeDefinition n ds ts)
    have "sound pool schemaMap
            (\<lambda>x acc. bindE (forEachE (collectDirective stack pool schemaMap) ds acc)
               (forEachE (collectType pool schemaMap) ts))
            (\<lambda>x. directiveRefs ds @ concat (map (\<lambda>x. [NameRef x]) ts))"
      by (rule sound_bindE[OF dirs sound_forEachE[OF sound_collectType[of pool schemaMap "\<lambda>x. x"]]])
    from sound_Inr[OF this, where acc="[]"] sound_Inl[OF this, where acc="[]"]
    show ?thesis using UnionTypeDefinition by simp
  next
    case (EnumTypeDefinition n ds vs)
    have "sound pool schemaMap
            (\<lambda>x acc. bindE (forEachE (collectDirective stack pool schemaMap) ds acc)
               (forEachE (\<lambda>v. forEachE (collectDirective stack pool schemaMap) (ev_directives v)) vs))
            (\<lambda>x. directiveRefs ds @ concat (map (\<lambda>v. directiveRefs (ev_directives v)) vs))"
      by (rule sound_bindE[OF dirs sound_forEachE[OF sound_directives[OF cd]]])
    from sound_Inr[OF this, where acc="[]"] sound_Inl[OF this, where acc="[]"]
    show ?thesis using EnumTypeDefinition by simp
  next
    case (InputObjectTypeDefinition n ds fs)
    have "sound pool schemaMap
            (\<lambda>x acc. bindE (forEachE (collectDirective stack pool schemaMap) ds acc)
               (forEachE (collectInputValue stack pool schemaMap) fs))
            (\<lambda>x. directiveRefs ds @ concat (map inputValueRefs fs))"
      by (rule sound_bindE[OF dirs sound_forEachE[OF sound_collectInputValue]])
    from sound_Inr[OF this, where acc="[]"] sound_Inl[OF this, where acc="[]"]
    show ?thesis using InputObjectTypeDefinition by simp
  next
    case (DirectiveDefinition n as)
    then show ?thesis by (auto simp: returnsFor_refl)
  next
    case (SchemaDefinition ds ots)
    have "sound pool schemaMap
            (\<lambda>x acc. bindE (forEachE (collectDirective stack pool schemaMap) ds acc)
               (forEachE (\<lambda>operationType. collectType pool schemaMap (ot_type operationType)) ots))
            (\<lambda>x. directiveRefs ds @ concat (map (\<lambda>ot. [NameRef (ot_type ot)]) ots))"
      by (rule sound_bindE[OF dirs sound_forEachE[OF sound_collectType]])
    from sound_Inr[OF this, where acc="[]"] sound_Inl[OF this, where acc="[]"]
    show ?thesis using SchemaDefinition by simp
  next
    case (OperationDefinition n ds ss)
    have "sound pool schemaMap
            (\<lambda>x acc. bindE (forEachE (collectDirective stack pool schemaMap) ds acc)
               (forEachE (collectFragments stack pool schemaMap) ss))
            (\<lambda>x. directiveRefs ds @ concat (map selectionRefs ss))"
      by (rule sound_bindE[OF dirs sound_forEachE[OF sound_collectFragments]])
    from sound_Inr[OF this, where acc="[]"] sound_Inl[OF this, where acc="[]"]
    show ?thesis using OperationDefinition by simp
  next
    case (FragmentDefinition n ds ss)
    have "sound pool schemaMap
            (\<lambda>x acc. bindE (forEachE (collectDirective stack pool schemaMap) ds acc)
               (forEachE (collectFragments stack pool schemaMap) ss))
            (\<lambda>x. directiveRefs ds @ concat (map selectionRefs ss))"
      by (rule sound_bindE[OF dirs sound_forEachE[OF sound_collectFragments]])
    from sound_Inr[OF this, where acc="[]"] sound_Inl[OF this, where acc="[]"]
    show ?thesis using FragmentDefinition by simp
  qed
qed

text \<open>
  \<open>calm\<close>: where the pool resolves every directive reference of the argument and the
  lookup map has a match for every other reference that the pool does not resolve, the
  collector returns, having appended only such matches.
\<close>

definition lookedUp ::
  "definition_node list \<Rightarrow> (string \<rightharpoonup> definition_node) \<Rightarrow> reference list \<Rightarrow> bool" where
  "lookedUp pool schemaMap refs =
     (\<forall>r\<in>set refs. resolved pool r \<or> (\<not> isDirectiveRef r \<and> schemaMap (refName r) \<noteq> None))"

definition appendsFor ::
  "definition_node list \<Rightarrow> (string \<rightharpoonup> definition_node) \<Rightarrow> reference list \<Rightarrow>
   definition_node list \<Rightarrow> bool" where
  "appendsFor pool schemaMap refs new =
     (\<forall>m\<in>set new. \<exists>r\<in>set refs. \<not> resolved pool r \<and> schemaMap (refName r) = Some m)"

definition calm ::
  "definition_node list \<Rightarrow> (string \<rightharpoonup> definition_node) \<Rightarrow>
   ('x \<Rightarrow> definition_node list \<Rightarrow> error + definition_node list) \<Rightarrow> ('x \<Rightarrow> reference list) \<Rightarrow> bool" where
  "calm pool schemaMap f refs =
     (\<forall>x acc. lookedUp pool schemaMap (refs x) \<longrightarrow>
        (\<exists>new. f x acc = Inr (acc @ new) \<and> appendsFor pool schemaMap (refs x) new))"

lemma calmI:
  assumes "\<And>x acc. lookedUp pool schemaMap (refs x) \<Longrightarrow>
             \<exists>new. f x acc = Inr (acc @ new) \<and> appendsFor pool schemaMap (refs x) new"
  shows "calm pool schemaMap f refs"
  unfolding calm_def using assms by blast

lemma calmD:
  "calm pool schemaMap f refs \<Longrightarrow> lookedUp pool schemaMap (refs x) \<Longrightarrow>
     \<exists>new. f x acc = Inr (acc @ new) \<and> appendsFor pool schemaMap (refs x) new"
  unfolding calm_def by blast

lemma lookedUp_append:
  "lookedUp pool schemaMap (xs @ ys) \<longleftrightarrow> lookedUp pool schemaMap xs \<and> lookedUp pool schemaMap ys"
  unfolding lookedUp_def by auto

lemma lookedUp_Nil: "lookedUp pool schemaMap []"
  unfolding lookedUp_def by simp

lemma appendsFor_Nil: "appendsFor pool schemaMap refs []"
  unfolding appendsFor_def by simp

lemma appendsFor_append:
  "appendsFor pool schemaMap xs new1 \<Longrightarrow> appendsFor pool schemaMap ys new2 \<Longrightarrow>
     appendsFor pool schemaMap (xs @ ys) (new1 @ new2)"
  unfolding appendsFor_def by auto

lemma calm_forEachE:
  assumes "calm pool schemaMap f refs"
  shows "calm pool schemaMap (\<lambda>x. forEachE f (g x)) (\<lambda>x. concat (map refs (g x)))"
proof -
  have "lookedUp pool schemaMap (concat (map refs xs)) \<Longrightarrow>
          \<exists>new. forEachE f xs acc = Inr (acc @ new) \<and>
                appendsFor pool schemaMap (concat (map refs xs)) new" for xs acc
  proof (induction xs arbitrary: acc)
    case Nil
    show ?case by (simp add: appendsFor_Nil)
  next
    case (Cons x xs)
    from Cons.prems have lx: "lookedUp pool schemaMap (refs x)"
      and lxs: "lookedUp pool schemaMap (concat (map refs xs))"
      by (simp_all add: lookedUp_append)
    from calmD[OF assms lx] obtain new1 where
      n1: "f x acc = Inr (acc @ new1)" "appendsFor pool schemaMap (refs x) new1" by blast
    from Cons.IH[OF lxs] obtain new2 where
      n2: "forEachE f xs (acc @ new1) = Inr ((acc @ new1) @ new2)"
        "appendsFor pool schemaMap (concat (map refs xs)) new2" by blast
    show ?case
      by (rule exI[of _ "new1 @ new2"]) (use n1 n2 appendsFor_append in auto)
  qed
  then show ?thesis by (intro calmI)
qed

lemma calm_bindE:
  assumes "calm pool schemaMap f refs1" and "calm pool schemaMap g refs2"
  shows "calm pool schemaMap (\<lambda>x acc. bindE (f x acc) (g x)) (\<lambda>x. refs1 x @ refs2 x)"
proof (rule calmI)
  fix x acc assume "lookedUp pool schemaMap (refs1 x @ refs2 x)"
  then have l1: "lookedUp pool schemaMap (refs1 x)" and l2: "lookedUp pool schemaMap (refs2 x)"
    by (simp_all add: lookedUp_append)
  from calmD[OF assms(1) l1] obtain new1 where
    n1: "f x acc = Inr (acc @ new1)" "appendsFor pool schemaMap (refs1 x) new1" by blast
  from calmD[OF assms(2) l2] obtain new2 where
    n2: "g x (acc @ new1) = Inr ((acc @ new1) @ new2)" "appendsFor pool schemaMap (refs2 x) new2"
    by blast
  show "\<exists>new. bindE (f x acc) (g x) = Inr (acc @ new) \<and>
              appendsFor pool schemaMap (refs1 x @ refs2 x) new"
    by (rule exI[of _ "new1 @ new2"]) (use n1 n2 appendsFor_append in \<open>auto simp: bindE_def\<close>)
qed

lemma lookup_calm:
  assumes "lookedUp pool schemaMap [r]" and "\<not> resolved pool r"
  shows "\<exists>new. (case schemaMap (refName r) of None \<Rightarrow> Inl e | Some m \<Rightarrow> Inr (acc @ [m]))
                 = Inr (acc @ new) \<and> appendsFor pool schemaMap [r] new"
proof -
  from assms obtain m where m: "schemaMap (refName r) = Some m"
    unfolding lookedUp_def by auto
  show ?thesis
    by (rule exI[of _ "[m]"]) (use m assms(2) in \<open>simp add: appendsFor_def\<close>)
qed

lemma resolved_calm:
  "resolved pool r \<Longrightarrow> \<exists>new. Inr acc = Inr (acc @ new) \<and> appendsFor pool schemaMap [r] new"
  by (rule exI[of _ "[]"]) (simp add: appendsFor_Nil)

lemma calm_collectType:
  "calm pool schemaMap (\<lambda>x. collectType pool schemaMap (f x)) (\<lambda>x. [NameRef (f x)])"
proof (rule calmI)
  fix x acc assume l: "lookedUp pool schemaMap [NameRef (f x)]"
  show "\<exists>new. collectType pool schemaMap (f x) acc = Inr (acc @ new) \<and>
              appendsFor pool schemaMap [NameRef (f x)] new"
  proof (cases "inPool pool (f x)")
    case True
    then show ?thesis using resolved_calm[of pool "NameRef (f x)"] by (simp add: collectType_def)
  next
    case False
    then show ?thesis using lookup_calm[OF l] by (simp add: collectType_def)
  qed
qed

lemma calm_collectInterface:
  "calm pool schemaMap (collectInterface pool schemaMap) (\<lambda>x. [NameRef x])"
proof (rule calmI)
  fix x acc assume l: "lookedUp pool schemaMap [NameRef x]"
  show "\<exists>new. collectInterface pool schemaMap x acc = Inr (acc @ new) \<and>
              appendsFor pool schemaMap [NameRef x] new"
  proof (cases "inPool pool x")
    case True
    then show ?thesis using resolved_calm[of pool "NameRef x"] by (simp add: collectInterface_def)
  next
    case False
    then show ?thesis using lookup_calm[OF l] by (simp add: collectInterface_def)
  qed
qed

lemma calm_collectDirective:
  "calm pool schemaMap (collectDirective stack pool schemaMap)
     (\<lambda>d. [DirectiveRef (directive_name d)])"
proof (rule calmI)
  fix d acc assume "lookedUp pool schemaMap [DirectiveRef (directive_name d)]"
  then have r: "inPool pool (directive_name d) \<or> directive_name d \<in> set builtinDirectives"
    unfolding lookedUp_def by simp
  then have "collectDirective stack pool schemaMap d acc = Inr acc"
    by (cases stack) (auto simp: Let_def)
  then show "\<exists>new. collectDirective stack pool schemaMap d acc = Inr (acc @ new) \<and>
              appendsFor pool schemaMap [DirectiveRef (directive_name d)] new"
    using resolved_calm[of pool "DirectiveRef (directive_name d)"] r by simp
qed

lemma calm_directives:
  "calm pool schemaMap (\<lambda>x. forEachE (collectDirective stack pool schemaMap) (g x))
     (\<lambda>x. directiveRefs (g x))"
  using calm_forEachE[OF calm_collectDirective, of pool schemaMap stack g]
  by (simp add: directiveRefs_concat)

lemma calm_collectNode:
  "calm pool schemaMap (\<lambda>x. collectNode stack pool schemaMap (nm x) (ty x) (ds x))
           (\<lambda>x. TypeRef (getNamedType (ty x)) # directiveRefs (ds x))"
proof -
  let ?look = "\<lambda>x acc. (if \<not> inPool pool (getNamedType (ty x)) \<and> getNamedType (ty x) \<notin> set builtinTypes
       then (case schemaMap (getNamedType (ty x)) of
              None \<Rightarrow> Inl (missing (getNamedType (ty x))
                              (fieldTypeNotFound (nm x) (getNamedType (ty x))))
            | Some argTypeMatch \<Rightarrow> Inr (acc @ [argTypeMatch]))
       else Inr acc)"
  have look: "calm pool schemaMap ?look (\<lambda>x. [TypeRef (getNamedType (ty x))])"
  proof (rule calmI)
    fix x acc assume l: "lookedUp pool schemaMap [TypeRef (getNamedType (ty x))]"
    show "\<exists>new. ?look x acc = Inr (acc @ new) \<and>
              appendsFor pool schemaMap [TypeRef (getNamedType (ty x))] new"
    proof (cases "\<not> inPool pool (getNamedType (ty x)) \<and> getNamedType (ty x) \<notin> set builtinTypes")
      case True
      then show ?thesis using lookup_calm[OF l] by simp
    next
      case False
      then show ?thesis using resolved_calm[of pool "TypeRef (getNamedType (ty x))"] by auto
    qed
  qed
  have "calm pool schemaMap
          (\<lambda>x acc. bindE (?look x acc) (forEachE (collectDirective stack pool schemaMap) (ds x)))
          (\<lambda>x. [TypeRef (getNamedType (ty x))] @ directiveRefs (ds x))"
    by (rule calm_bindE[OF look calm_directives])
  then show ?thesis by (simp add: collectNode_def collectNodeWith_def[abs_def] Let_def)
qed

lemma calm_collectInputValue:
  "calm pool schemaMap (collectInputValue stack pool schemaMap) inputValueRefs"
  using calm_collectNode[of pool schemaMap stack iv_name iv_type iv_directives]
  by (simp add: collectInputValue_def[abs_def] inputValueRefs_def[abs_def])

lemma calm_collectField:
  "calm pool schemaMap (collectField stack pool schemaMap) fieldRefs"
  using calm_collectNode[of pool schemaMap stack fd_name fd_type fd_directives]
  by (simp add: collectField_def[abs_def] fieldRefs_def[abs_def])

lemma calm_collectFragments_aux:
  "lookedUp pool schemaMap (selectionRefs sel) \<Longrightarrow>
     \<exists>new. collectFragments stack pool schemaMap sel acc = Inr (acc @ new) \<and>
           appendsFor pool schemaMap (selectionRefs sel) new"
  "lookedUp pool schemaMap (selectionSetRefs nds sels) \<Longrightarrow>
     \<exists>new. collectSelections stack pool schemaMap nds sels acc = Inr (acc @ new) \<and>
           appendsFor pool schemaMap (selectionSetRefs nds sels) new"
proof (induction stack pool schemaMap sel acc and stack pool schemaMap nds sels acc
       rule: collectFragments_collectSelections.induct)
  case (1 stack definitionPool schemaMap fragmentName ds acc)
  then have l: "lookedUp definitionPool schemaMap [NameRef fragmentName]" by simp
  show ?case
  proof (cases "inPool definitionPool fragmentName")
    case True
    then show ?thesis using resolved_calm[of definitionPool "NameRef fragmentName"] by simp
  next
    case False
    then show ?thesis using lookup_calm[OF l] by simp
  qed
next
  case (2 stack definitionPool schemaMap n ds acc)
  show ?case by (simp add: appendsFor_Nil)
next
  case (3 stack definitionPool schemaMap n ds selections acc)
  then show ?case by simp
next
  case (4 stack definitionPool schemaMap ds selections acc)
  then show ?case by simp
next
  case (5 stack definitionPool schemaMap nodeDirectives acc)
  show ?case by (simp add: appendsFor_Nil)
next
  case (6 stack definitionPool schemaMap nodeDirectives selection rest acc)
  from "6.prems" have l1: "lookedUp definitionPool schemaMap (directiveRefs nodeDirectives)"
    and l2: "lookedUp definitionPool schemaMap (selectionRefs selection)"
    and l3: "lookedUp definitionPool schemaMap (selectionSetRefs nodeDirectives rest)"
    by (simp_all add: lookedUp_append)
  from calmD[OF calm_directives[of definitionPool schemaMap stack "\<lambda>x. nodeDirectives"] l1]
  obtain new1 where
    n1: "forEachE (collectDirective stack definitionPool schemaMap) nodeDirectives acc
           = Inr (acc @ new1)"
      "appendsFor definitionPool schemaMap (directiveRefs nodeDirectives) new1"
    by blast
  from "6.IH"(1)[OF l2] obtain new2 where
    n2: "collectFragments stack definitionPool schemaMap selection (acc @ new1)
           = Inr ((acc @ new1) @ new2)"
      "appendsFor definitionPool schemaMap (selectionRefs selection) new2"
    by blast
  from "6.IH"(2)[OF l3] obtain new3 where
    n3: "collectSelections stack definitionPool schemaMap nodeDirectives rest ((acc @ new1) @ new2)
           = Inr (((acc @ new1) @ new2) @ new3)"
      "appendsFor definitionPool schemaMap (selectionSetRefs nodeDirectives rest) new3"
    by blast
  show ?case
    by (rule exI[of _ "new1 @ new2 @ new3"])
       (use n1 n2 n3 appendsFor_append[OF n1(2) appendsFor_append[OF n2(2) n3(2)]]
         in \<open>simp add: bindE_def\<close>)
qed

lemma calm_collectFragments:
  "calm pool schemaMap (collectFragments stack pool schemaMap) selectionRefs"
  by (rule calmI) (rule calm_collectFragments_aux(1))

lemma collectNewTypeDefinitions_calm:
  assumes "lookedUp pool schemaMap (references d)"
  shows "\<exists>new. collectNewTypeDefinitions stack allDefinitions pool d schemaMap
                  = Inr (new @ implementations d allDefinitions) \<and>
               appendsFor pool schemaMap (references d) new"
proof -
  note dirs = calm_directives[of pool schemaMap stack]
  show ?thesis
  proof (cases d)
    case (ScalarTypeDefinition n ds)
    with assms show ?thesis using calmD[OF dirs[of "\<lambda>x. ds"], where acc="[]"] by simp
  next
    case (ObjectTypeDefinition n ifs ds fs)
    let ?field = "\<lambda>field acc'. bindE (collectField stack pool schemaMap field acc')
             (forEachE (collectInputValue stack pool schemaMap) (fd_arguments field))"
    have f: "calm pool schemaMap ?field
               (\<lambda>f. fieldRefs f @ concat (map inputValueRefs (fd_arguments f)))"
      by (rule calm_bindE[OF calm_collectField calm_forEachE[OF calm_collectInputValue]])
    have "calm pool schemaMap
            (\<lambda>x acc. bindE (forEachE (collectDirective stack pool schemaMap) ds acc)
               (\<lambda>acc. bindE (forEachE (collectInterface pool schemaMap) ifs acc) (forEachE ?field fs)))
            (\<lambda>x. directiveRefs ds @ concat (map (\<lambda>x. [NameRef x]) ifs)
               @ concat (map (\<lambda>f. fieldRefs f @ concat (map inputValueRefs (fd_arguments f))) fs))"
      by (rule calm_bindE[OF dirs calm_bindE[OF calm_forEachE[OF calm_collectInterface]
              calm_forEachE[OF f]]])
    from calmD[OF this, where acc="[]"] assms ObjectTypeDefinition
    show ?thesis by simp
  next
    case (InterfaceTypeDefinition n ds fs)
    have "calm pool schemaMap
            (\<lambda>x acc. bindE (forEachE (collectDirective stack pool schemaMap) ds acc)
               (forEachE (collectField stack pool schemaMap) fs))
            (\<lambda>x. directiveRefs ds @ concat (map fieldRefs fs))"
      by (rule calm_bindE[OF dirs calm_forEachE[OF calm_collectField]])
    from calmD[OF this, where acc="[]"] assms InterfaceTypeDefinition
    obtain new where
      n: "bindE (forEachE (collectDirective stack pool schemaMap) ds [])
            (forEachE (collectField stack pool schemaMap) fs) = Inr new"
        "appendsFor pool schemaMap (directiveRefs ds @ concat (map fieldRefs fs)) new"
      by auto
    then obtain a1 where a1: "forEachE (collectDirective stack pool schemaMap) ds [] = Inr a1"
      "forEachE (collectField stack pool schemaMap) fs a1 = Inr new"
      by (auto simp: bindE_Inr)
    show ?thesis
      by (rule exI[of _ new]) (use n(2) a1 InterfaceTypeDefinition in \<open>simp add: bindE_def\<close>)
  next
    case (UnionTypeDefinition n ds ts)
    have "calm pool schemaMap
            (\<lambda>x acc. bindE (forEachE (collectDirective stack pool schemaMap) ds acc)
               (forEachE (collectType pool schemaMap) ts))
            (\<lambda>x. directiveRefs ds @ concat (map (\<lambda>x. [NameRef x]) ts))"
      by (rule calm_bindE[OF dirs calm_forEachE[OF calm_collectType[of pool schemaMap "\<lambda>x. x"]]])
    from calmD[OF this, where acc="[]"] assms UnionTypeDefinition
    show ?thesis by simp
  next
    case (EnumTypeDefinition n ds vs)
    have "calm pool schemaMap
            (\<lambda>x acc. bindE (forEachE (collectDirective stack pool schemaMap) ds acc)
               (forEachE (\<lambda>v. forEachE (collectDirective stack pool schemaMap) (ev_directives v)) vs))
            (\<lambda>x. directiveRefs ds @ concat (map (\<lambda>v. directiveRefs (ev_directives v)) vs))"
      by (rule calm_bindE[OF dirs calm_forEachE[OF calm_directives]])
    from calmD[OF this, where acc="[]"] assms EnumTypeDefinition
    show ?thesis by simp
  next
    case (InputObjectTypeDefinition n ds fs)
    have "calm pool schemaMap
            (\<lambda>x acc. bindE (forEachE (collectDirective stack pool schemaMap) ds acc)
               (forEachE (collectInputValue stack pool schemaMap) fs))
            (\<lambda>x. directiveRefs ds @ concat (map inputValueRefs fs))"
      by (rule calm_bindE[OF dirs calm_forEachE[OF calm_collectInputValue]])
    from calmD[OF this, where acc="[]"] assms InputObjectTypeDefinition
    show ?thesis by simp
  next
    case (DirectiveDefinition n as)
    then show ?thesis by (simp add: appendsFor_Nil)
  next
    case (SchemaDefinition ds ots)
    have "calm pool schemaMap
            (\<lambda>x acc. bindE (forEachE (collectDirective stack pool schemaMap) ds acc)
               (forEachE (\<lambda>operationType. collectType pool schemaMap (ot_type operationType)) ots))
            (\<lambda>x. directiveRefs ds @ concat (map (\<lambda>ot. [NameRef (ot_type ot)]) ots))"
      by (rule calm_bindE[OF dirs calm_forEachE[OF calm_collectType]])
    from calmD[OF this, where acc="[]"] assms SchemaDefinition
    show ?thesis by simp
  next
    case (OperationDefinition n ds ss)
    have "calm pool schemaMap
            (\<lambda>x acc. bindE (forEachE (collectDirective stack pool schemaMap) ds acc)
               (forEachE (collectFragments stack pool schemaMap) ss))
            (\<lambda>x. directiveRefs ds @ concat (map selectionRefs ss))"
      by (rule calm_bindE[OF dirs calm_forEachE[OF calm_collectFragments]])
    from calmD[OF this, where acc="[]"] assms OperationDefinition
    show ?thesis by simp
  next
    case (FragmentDefinition n ds ss)
    have "calm pool schemaMap
            (\<lambda>x acc. bindE (forEachE (collectDirective stack pool schemaMap) ds acc)
               (forEachE (collectFragments stack pool schemaMap) ss))
            (\<lambda>x. directiveRefs ds @ concat (map selectionRefs ss))"
      by (rule calm_bindE[OF dirs calm_forEachE[OF calm_collectFragments]])
    from calmD[OF this, where acc="[]"] assms FragmentDefinition
    show ?thesis by simp
  qed
qed

subsection \<open>The lookup map\<close>

lemma keyBy_snoc: "keyBy (xs @ [x]) f = (keyBy xs f)(f x \<mapsto> x)"
  by (simp add: keyBy_def)

lemma keyBy_find: "keyBy xs f k = find (\<lambda>x. f x = k) (rev xs)"
proof (induction xs rule: rev_induct)
  case Nil
  show ?case by (simp add: keyBy_def)
next
  case (snoc y ys)
  then show ?case by (simp add: keyBy_snoc)
qed

lemma keyBy_Some: "keyBy xs f k = Some x \<Longrightarrow> x \<in> set xs \<and> f x = k"
proof (induction xs rule: rev_induct)
  case Nil
  then show ?case by (simp add: keyBy_def)
next
  case (snoc y ys)
  then show ?case by (cases "f y = k") (auto simp: keyBy_snoc)
qed

lemma keyBy_None: "keyBy xs f k = None \<longleftrightarrow> k \<notin> f ` set xs"
proof (induction xs rule: rev_induct)
  case Nil
  then show ?case by (simp add: keyBy_def)
next
  case (snoc y ys)
  then show ?case by (cases "f y = k") (auto simp: keyBy_snoc)
qed

lemma ran_keyBy: "ran (keyBy xs f) \<subseteq> set xs"
  unfolding ran_def using keyBy_Some by fastforce

lemma set_implementations: "set (implementations d allDefinitions) \<subseteq> set allDefinitions"
  by (cases d) auto

lemma set_implementations_cong:
  "set xs = set ys \<Longrightarrow> set (implementations d xs) = set (implementations d ys)"
  by (cases d) auto

lemma collected_from_allDefinitions:
  assumes "collectNewTypeDefinitions stack (rev allDefinitions) pool d
             (keyBy (rev allDefinitions) defName) = Inr collected"
  shows "set collected \<subseteq> set allDefinitions"
proof -
  from assms collectNewTypeDefinitions_sound obtain new where
    c: "collected = new @ implementations d (rev allDefinitions)"
    and r: "returnsFor pool (keyBy (rev allDefinitions) defName) (references d) [] new"
    by blast
  from r have "set new \<subseteq> ran (keyBy (rev allDefinitions) defName)"
    unfolding returnsFor_def by auto
  then have "set new \<subseteq> set allDefinitions" using ran_keyBy[of "rev allDefinitions" defName] by auto
  with c show ?thesis using set_implementations[of d "rev allDefinitions"] by auto
qed

subsection \<open>The worklist loop\<close>

text \<open>
  \<^verbatim>\<open>completeDefinitionPool\<close>: the state of the \<^verbatim>\<open>while\<close> loop is the array
  \<^verbatim>\<open>allDefinitions\<close> (lodash \<^verbatim>\<open>reverse\<close> reverses it in place, once in every iteration,
  before the map is keyed), the pool, the worklist and the visited table. The table
  \<^verbatim>\<open>visitedDefinitions\<close> is a plain object, read only through the test
  \<^verbatim>\<open>if (visitedDefinitions[defName])\<close>: the state \<open>visitedDefinitions\<close> of the model is
  the set of the keys for which that test succeeds. The loop returns the final
  \<^verbatim>\<open>allDefinitions\<close> beside the pool, so that the effect on the caller's array can be
  stated.
\<close>

function completeLoop ::
  "nat \<Rightarrow> definition_node list \<Rightarrow> definition_node list \<Rightarrow> definition_node list \<Rightarrow> string set \<Rightarrow>
   error + (definition_node list \<times> definition_node list)" where
  "completeLoop stack allDefinitions definitionPool [] visitedDefinitions =
     Inr (allDefinitions, definitionPool)"
| "completeLoop stack allDefinitions definitionPool (newDefinition # rest) visitedDefinitions =
     (if defName newDefinition \<in> visitedDefinitions then
        completeLoop stack (rev allDefinitions) definitionPool rest visitedDefinitions
      else
        (case collectNewTypeDefinitions stack (rev allDefinitions) definitionPool newDefinition
                (keyBy (rev allDefinitions) defName) of
           Inl e \<Rightarrow> Inl e
         | Inr collectedTypedDefinitions \<Rightarrow>
             completeLoop stack (rev allDefinitions) (definitionPool @ collectedTypedDefinitions)
               (rest @ collectedTypedDefinitions)
               (insert (defName newDefinition) visitedDefinitions)))"
  by pat_completeness auto
termination
proof (relation "measures [\<lambda>(stack, allDefinitions, definitionPool, newTypeDefinitions, visited).
                              card (defName ` (set allDefinitions \<union> set newTypeDefinitions) - visited),
                            \<lambda>(stack, allDefinitions, definitionPool, newTypeDefinitions, visited).
                              length newTypeDefinitions]", goal_cases)
  case 1
  show ?case by simp
next
  case (2 stack allDefinitions definitionPool newDefinition rest visitedDefinitions)
  have "card (defName ` (set (rev allDefinitions) \<union> set rest) - visitedDefinitions)
          \<le> card (defName ` (set allDefinitions \<union> set (newDefinition # rest)) - visitedDefinitions)"
    by (rule card_mono) auto
  then show ?case by auto
next
  case (3 stack allDefinitions definitionPool newDefinition rest visitedDefinitions collected)
  let ?k = "defName newDefinition"
  have sub: "set collected \<subseteq> set allDefinitions"
    using collected_from_allDefinitions[OF "3"(2)] .
  have "defName ` (set (rev allDefinitions) \<union> set (rest @ collected)) - insert ?k visitedDefinitions
          \<subset> defName ` (set allDefinitions \<union> set (newDefinition # rest)) - visitedDefinitions"
    using sub "3"(1) by auto
  then have "card (defName ` (set (rev allDefinitions) \<union> set (rest @ collected)) - insert ?k visitedDefinitions)
          < card (defName ` (set allDefinitions \<union> set (newDefinition # rest)) - visitedDefinitions)"
    by (intro psubset_card_mono) auto
  then show ?case by simp
qed

text \<open>
  \<^verbatim>\<open>completeDefinitionPool\<close>. For the table \<^verbatim>\<open>{}\<close> that the loop starts with, the test
  \<^verbatim>\<open>visitedDefinitions[defName]\<close> already succeeds for the names of the properties that
  the object inherits: a definition of such a name is skipped whenever it is dequeued.
  \<^verbatim>\<open>uniqBy(definitionPool, 'name.value')\<close> keys a schema definition by \<^verbatim>\<open>undefined\<close>.
\<close>

definition completeDefinitionPool ::
  "nat \<Rightarrow> definition_node list \<Rightarrow> definition_node list \<Rightarrow> definition_node list \<Rightarrow>
   error + definition_node list" where
  "completeDefinitionPool stack allDefinitions definitionPool newTypeDefinitions =
     (case completeLoop stack allDefinitions definitionPool newTypeDefinitions
             (set objectPrototypeNames) of
        Inl e \<Rightarrow> Inl e
      | Inr (allDefinitions', definitionPool') \<Rightarrow> Inr (uniqBy definitionPool' nameOf))"

subsection \<open>Facts about \<open>uniqBy\<close>\<close>

lemma set_uniqSeen: "set (uniqSeen f seen xs) \<subseteq> set xs"
  by (induction xs arbitrary: seen) auto

lemma image_uniqSeen: "f ` set (uniqSeen f seen xs) = f ` set xs - set seen"
  by (induction xs arbitrary: seen) auto

lemma image_uniqBy: "f ` set (uniqBy xs f) = f ` set xs"
  by (simp add: uniqBy_def image_uniqSeen)

lemma set_uniqBy: "set (uniqBy xs f) \<subseteq> set xs"
  by (simp add: uniqBy_def set_uniqSeen)

lemma distinct_uniqSeen: "distinct (map f (uniqSeen f seen xs))"
  by (induction xs arbitrary: seen) (auto simp: image_uniqSeen)

lemma distinct_uniqBy: "distinct (map f (uniqBy xs f))"
  by (simp add: uniqBy_def distinct_uniqSeen)

lemma uniqSeen_append_seen:
  "f ` set ys \<subseteq> set seen \<union> f ` set xs \<Longrightarrow> uniqSeen f seen (xs @ ys) = uniqSeen f seen xs"
proof (induction xs arbitrary: seen)
  case Nil
  then show ?case by (induction ys) auto
next
  case (Cons x xs)
  show ?case
  proof (cases "f x \<in> set seen")
    case True
    with Cons.prems have "f ` set ys \<subseteq> set seen \<union> f ` set xs" by auto
    with True Cons.IH show ?thesis by simp
  next
    case False
    from Cons.prems have "f ` set ys \<subseteq> set (f x # seen) \<union> f ` set xs" by auto
    with False Cons.IH show ?thesis by simp
  qed
qed

lemma uniqSeen_distinct:
  "distinct (map f xs) \<Longrightarrow> f ` set xs \<inter> set seen = {} \<Longrightarrow> uniqSeen f seen xs = xs"
  by (induction xs arbitrary: seen) auto

lemma uniqBy_id: "distinct (map f xs) \<Longrightarrow> uniqBy xs f = xs"
  by (simp add: uniqBy_def uniqSeen_distinct)

lemma uniqBy_append_known:
  "f ` set ys \<subseteq> f ` set xs \<Longrightarrow> uniqBy (xs @ ys) f = uniqBy xs f"
  by (simp add: uniqBy_def uniqSeen_append_seen)

lemma find_uniqSeen:
  assumes "\<And>x y. f x = f y \<Longrightarrow> g x = g y" and "\<forall>y. f y \<in> set seen \<longrightarrow> g y \<noteq> k"
  shows "find (\<lambda>x. g x = k) (uniqSeen f seen xs) = find (\<lambda>x. g x = k) xs"
  using assms(2)
proof (induction xs arbitrary: seen)
  case Nil
  show ?case by simp
next
  case (Cons x xs)
  show ?case
  proof (cases "f x \<in> set seen")
    case True
    with Cons.prems have "g x \<noteq> k" by blast
    with True Cons.IH[OF Cons.prems] show ?thesis by simp
  next
    case False
    show ?thesis
    proof (cases "g x = k")
      case True
      with False show ?thesis by simp
    next
      case nk: False
      have "\<forall>y. f y \<in> set (f x # seen) \<longrightarrow> g y \<noteq> k"
        using Cons.prems nk assms(1) by (metis set_ConsD)
      from Cons.IH[OF this] False nk show ?thesis by simp
    qed
  qed
qed

lemma find_uniqBy:
  assumes "\<And>x y. f x = f y \<Longrightarrow> g x = g y"
  shows "find (\<lambda>x. g x = k) (uniqBy xs f) = find (\<lambda>x. g x = k) xs"
  unfolding uniqBy_def by (rule find_uniqSeen[OF assms]) simp_all

lemma defName_cong: "nameOf x = nameOf y \<Longrightarrow> defName x = defName y"
  by (simp add: defName_def)

lemma inPool_iff: "inPool pool n \<longleftrightarrow> Some n \<in> nameOf ` set pool"
  unfolding inPool_def list_ex_iff by force

lemma inPool_uniqBy: "inPool (uniqBy pool nameOf) n = inPool pool n"
  by (simp add: inPool_iff image_uniqBy)

lemma resolved_names:
  "nameOf ` set pool = nameOf ` set pool' \<Longrightarrow> resolved pool r = resolved pool' r"
  by (cases r) (simp_all add: inPool_iff)

lemma resolved_mono:
  "set pool \<subseteq> set pool' \<Longrightarrow> resolved pool r \<Longrightarrow> resolved pool' r"
  by (cases r) (auto simp: inPool_iff)

subsection \<open>What the loop establishes for a processed definition\<close>

text \<open>
  \<open>closedIn\<close>: the pool resolves every reference of the definition and holds the
  implementations it pulls in. A lookup of the name \<^verbatim>\<open>schema\<close> finds a schema definition
  (the map keys it so); such a reference counts as settled by a schema definition in the
  pool.
\<close>

definition closedIn :: "definition_node list \<Rightarrow> definition_node list \<Rightarrow> definition_node \<Rightarrow> bool" where
  "closedIn allDefinitions pool d =
     ((\<forall>r\<in>set (references d). resolved pool r \<or>
          (\<not> isDirectiveRef r \<and> refName r = ''schema'' \<and> None \<in> nameOf ` set pool \<and>
           None \<in> nameOf ` set allDefinitions)) \<and>
      set (implementations d allDefinitions) \<subseteq> set pool)"

lemma closedIn_mono:
  "set pool \<subseteq> set pool' \<Longrightarrow> closedIn allDefinitions pool d \<Longrightarrow> closedIn allDefinitions pool' d"
  unfolding closedIn_def using resolved_mono[of pool pool'] by blast

lemma closedIn_cong:
  "set xs = set ys \<Longrightarrow> closedIn xs pool d = closedIn ys pool d"
  unfolding closedIn_def using set_implementations_cong[of xs ys d] by simp


lemma nameOf_None_defName: "nameOf m = None \<Longrightarrow> defName m = ''schema''"
  by (simp add: defName_def)

lemma isDirectiveDefinition_named: "isDirectiveDefinition m \<Longrightarrow> nameOf m \<noteq> None"
  by (cases m) simp_all

lemma resolved_inPool: "inPool pool (refName r) \<Longrightarrow> resolved pool r"
  by (cases r) simp_all

lemma returnsFor_Nil:
  "returnsFor pool schemaMap refs [] new \<longleftrightarrow>
     set new \<subseteq> ran schemaMap \<and>
     (\<forall>r\<in>set refs. resolved pool r \<or> (\<exists>m\<in>set new. matched schemaMap r m)) \<and>
     ((\<forall>r\<in>set refs. resolved pool r) \<longrightarrow> new = [])"
  unfolding returnsFor_def by simp

lemma step_closed:
  assumes "collectNewTypeDefinitions stack A pool d (keyBy A defName) = Inr C"
  shows "closedIn A (pool @ C) d"
proof -
  from assms collectNewTypeDefinitions_sound obtain new where
    c: "C = new @ implementations d A"
    and ret: "returnsFor pool (keyBy A defName) (references d) [] new"
    by blast
  have "resolved (pool @ C) r \<or>
          (\<not> isDirectiveRef r \<and> refName r = ''schema'' \<and> None \<in> nameOf ` set (pool @ C) \<and>
           None \<in> nameOf ` set A)" if r: "r \<in> set (references d)" for r
  proof (cases "resolved pool r")
    case True
    have "set pool \<subseteq> set (pool @ C)" by auto
    from resolved_mono[OF this True] show ?thesis by (rule disjI1)
  next
    case False
    from ret have "\<forall>r\<in>set (references d). resolved pool r \<or>
                     (\<exists>m\<in>set new. matched (keyBy A defName) r m)"
      unfolding returnsFor_Nil by (elim conjE)
    with False r obtain m where m: "m \<in> set new" "matched (keyBy A defName) r m"
      by blast
    then have km: "keyBy A defName (refName r) = Some m"
      and dm: "isDirectiveRef r \<longrightarrow> isDirectiveDefinition m"
      by (simp_all add: matched_def)
    from keyBy_Some[OF km] have mA: "m \<in> set A" and dn: "defName m = refName r" by simp_all
    from m(1) c have mC: "m \<in> set (pool @ C)" by simp
    show ?thesis
    proof (cases "nameOf m")
      case None
      with dn have "refName r = ''schema''" by (simp add: nameOf_None_defName)
      moreover have "\<not> isDirectiveRef r" using dm None isDirectiveDefinition_named by blast
      moreover have "None \<in> nameOf ` set (pool @ C)" using mC None by (metis imageI)
      moreover have "None \<in> nameOf ` set A" using mA None by (metis imageI)
      ultimately show ?thesis by blast
    next
      case (Some n)
      with dn have "nameOf m = Some (refName r)" by (simp add: defName_def)
      with mC have "inPool (pool @ C) (refName r)" unfolding inPool_iff by (metis imageI)
      then show ?thesis using resolved_inPool by blast
    qed
  qed
  moreover have "set (implementations d A) \<subseteq> set (pool @ C)" using c by auto
  ultimately show ?thesis unfolding closedIn_def by blast
qed

lemma find_append:
  "find P (xs @ ys) = (case find P xs of None \<Rightarrow> find P ys | Some x \<Rightarrow> Some x)"
  by (induction xs) simp_all

lemma find_append_eq:
  "find P xs = find P ys \<Longrightarrow> find P (xs @ zs) = find P (ys @ zs)"
  by (simp add: find_append)

lemma find_append_Some: "find P xs = Some x \<Longrightarrow> find P (xs @ ys) = Some x"
  by (simp add: find_append)

lemma completeLoop_invariant:
  "completeLoop stack A pool wl vis = Inr (A', pool') \<Longrightarrow> set wl \<subseteq> set pool \<Longrightarrow>
   (\<forall>k. k \<notin> vis \<longrightarrow> find (\<lambda>d. defName d = k) pool = find (\<lambda>d. defName d = k) wl) \<Longrightarrow>
     (\<exists>C. pool' = pool @ C) \<and> set A' = set A \<and>
     (\<forall>k d. k \<notin> vis \<longrightarrow> find (\<lambda>d. defName d = k) pool' = Some d \<longrightarrow> closedIn A pool' d)"
proof (induction stack A pool wl vis rule: completeLoop.induct)
  case (1 stack allDefinitions definitionPool visitedDefinitions)
  then show ?case by simp
next
  case (2 stack allDefinitions definitionPool newDefinition rest visitedDefinitions)
  let ?k0 = "defName newDefinition"
  show ?case
  proof (cases "?k0 \<in> visitedDefinitions")
    case True
    with "2.prems"(1) have run: "completeLoop stack (rev allDefinitions) definitionPool rest
                                   visitedDefinitions = Inr (A', pool')"
      by simp
    have i1: "set rest \<subseteq> set definitionPool" using "2.prems"(2) by simp
    have i2: "\<forall>k. k \<notin> visitedDefinitions \<longrightarrow>
                find (\<lambda>d. defName d = k) definitionPool = find (\<lambda>d. defName d = k) rest"
      using "2.prems"(3) True by auto
    from "2.IH"(1)[OF True run i1 i2] show ?thesis
      using closedIn_cong[of "rev allDefinitions" allDefinitions] by simp
  next
    case False
    with "2.prems"(1) obtain C where
      col: "collectNewTypeDefinitions stack (rev allDefinitions) definitionPool newDefinition
              (keyBy (rev allDefinitions) defName) = Inr C"
      and run: "completeLoop stack (rev allDefinitions) (definitionPool @ C) (rest @ C)
                  (insert ?k0 visitedDefinitions) = Inr (A', pool')"
      by (auto split: sum.splits)
    have i1: "set (rest @ C) \<subseteq> set (definitionPool @ C)" using "2.prems"(2) by auto
    have i2: "\<forall>k. k \<notin> insert ?k0 visitedDefinitions \<longrightarrow>
                find (\<lambda>d. defName d = k) (definitionPool @ C) = find (\<lambda>d. defName d = k) (rest @ C)"
    proof (intro allI impI)
      fix k assume k: "k \<notin> insert ?k0 visitedDefinitions"
      then have "find (\<lambda>d. defName d = k) definitionPool = find (\<lambda>d. defName d = k) rest"
        using "2.prems"(3) by auto
      then show "find (\<lambda>d. defName d = k) (definitionPool @ C) = find (\<lambda>d. defName d = k) (rest @ C)"
        by (rule find_append_eq)
    qed
    from "2.IH"(2)[OF False col run i1 i2] obtain C' where
      p': "pool' = (definitionPool @ C) @ C'" and sA: "set A' = set (rev allDefinitions)"
      and cl: "\<forall>k d. k \<notin> insert ?k0 visitedDefinitions \<longrightarrow>
                 find (\<lambda>d. defName d = k) pool' = Some d \<longrightarrow> closedIn (rev allDefinitions) pool' d"
      by blast
    have "set (definitionPool @ C) \<subseteq> set pool'" unfolding p' by auto
    then have head: "closedIn (rev allDefinitions) pool' newDefinition"
      using step_closed[OF col] by (rule closedIn_mono)
    have first: "find (\<lambda>d. defName d = ?k0) pool' = Some newDefinition"
    proof -
      have "find (\<lambda>d. defName d = ?k0) definitionPool = Some newDefinition"
        using "2.prems"(3) False by simp
      then show ?thesis unfolding p' by (simp add: find_append)
    qed
    have "closedIn allDefinitions pool' d"
      if "k \<notin> visitedDefinitions" "find (\<lambda>d. defName d = k) pool' = Some d" for k d
    proof (cases "k = ?k0")
      case True
      with that first head show ?thesis
        using closedIn_cong[of "rev allDefinitions" allDefinitions] by simp
    next
      case False
      with that cl show ?thesis
        using closedIn_cong[of "rev allDefinitions" allDefinitions] by simp
    qed
    then show ?thesis using p' sA by auto
  qed
qed

text \<open>The pool that \<^verbatim>\<open>process$1\<close> passes: the worklist, followed by definitions of the worklist.\<close>

lemma find_worklist_prefix:
  assumes "set extra \<subseteq> set wl"
  shows "find P (wl @ extra) = find P wl"
proof (cases "find P wl")
  case None
  then have "\<forall>x\<in>set wl. \<not> P x" by (simp add: find_None_iff)
  with assms have "\<forall>x\<in>set extra. \<not> P x" by blast
  then have "find P extra = None" by (simp add: find_None_iff)
  with None show ?thesis by (simp add: find_append)
next
  case (Some x)
  then show ?thesis by (simp add: find_append)
qed

lemma completeDefinitionPool_Inr:
  "completeDefinitionPool stack A pool wl = Inr P \<longleftrightarrow>
     (\<exists>A' pool'. completeLoop stack A pool wl (set objectPrototypeNames) = Inr (A', pool') \<and>
        P = uniqBy pool' nameOf)"
  unfolding completeDefinitionPool_def by (auto split: sum.splits)

lemma find_first_in_distinct:
  assumes "distinct (map f xs)" and "x \<in> set xs" and "\<And>y. y \<in> set xs \<Longrightarrow> g y = g x \<Longrightarrow> f y = f x"
  shows "find (\<lambda>y. g y = g x) xs = Some x"
proof -
  from assms(2) have "find (\<lambda>y. g y = g x) xs \<noteq> None" by (auto simp: find_None_iff)
  then obtain y where y: "find (\<lambda>y. g y = g x) xs = Some y" by blast
  then have "y \<in> set xs" "g y = g x" by (auto simp: find_Some_iff)
  with assms(3) have "f y = f x" by blast
  with assms(1,2) \<open>y \<in> set xs\<close> have "y = x" by (meson distinct_map inj_onD)
  with y show ?thesis by simp
qed

lemma same_key_same_name:
  assumes "defName x = defName y" and "nameOf x \<noteq> Some ''schema''" and "nameOf y \<noteq> Some ''schema''"
  shows "nameOf x = nameOf y"
  using assms by (cases "nameOf x"; cases "nameOf y") (auto simp: defName_def)

lemma processed_pool_closed:
  assumes run: "completeLoop stack A (wl @ extra) wl (set objectPrototypeNames) = Inr (A', pool')"
    and extra: "set extra \<subseteq> set wl"
    and P: "P = uniqBy pool' nameOf"
    and d: "d \<in> set P" "find (\<lambda>x. defName x = defName d) P = Some d"
    and plain: "defName d \<notin> set objectPrototypeNames"
  shows "closedIn A pool' d"
proof -
  have i2: "\<forall>k. k \<notin> set objectPrototypeNames \<longrightarrow>
      find (\<lambda>d. defName d = k) (wl @ extra) = find (\<lambda>d. defName d = k) wl"
    using find_worklist_prefix[OF extra] by blast
  from completeLoop_invariant[OF run _ i2]
  have inv: "\<And>k d. k \<notin> set objectPrototypeNames \<Longrightarrow>
      find (\<lambda>d. defName d = k) pool' = Some d \<Longrightarrow> closedIn A pool' d" by auto
  have "find (\<lambda>x. defName x = defName d) pool' = find (\<lambda>x. defName x = defName d) P"
    unfolding P by (rule find_uniqBy[symmetric]) (rule defName_cong)
  with d(2) plain show ?thesis using inv by simp
qed

subsection \<open>Failure of the loop\<close>




lemma inPool_append_mono: "inPool pool n \<Longrightarrow> inPool (pool @ C) n"
  by (simp add: inPool_def)








subsection \<open>A second pass over a completed pool\<close>

lemma second_step:
  assumes cl: "closedIn A pool1 d"
    and names: "nameOf ` set pool1 = nameOf ` set P"
    and noSchema: "Some ''schema'' \<notin> nameOf ` set A"
    and A2: "set A2 = set A"
  shows "\<exists>C. collectNewTypeDefinitions stack A2 (P @ X) d (keyBy A2 defName) = Inr C \<and>
             nameOf ` set C \<subseteq> nameOf ` set P"
proof -
  let ?map = "keyBy A2 defName"
  have PX: "set P \<subseteq> set (P @ X)" by auto
  have res: "resolved (P @ X) r" if "resolved pool1 r" for r
    using resolved_mono[OF PX] resolved_names[OF names, of r] that by blast
  have look: "lookedUp (P @ X) ?map (references d)"
    unfolding lookedUp_def
  proof
    fix r assume r: "r \<in> set (references d)"
    show "resolved (P @ X) r \<or> (\<not> isDirectiveRef r \<and> ?map (refName r) \<noteq> None)"
    proof (cases "resolved pool1 r")
      case True
      then show ?thesis using res by blast
    next
      case False
      with cl r have s: "\<not> isDirectiveRef r" "refName r = ''schema''" "None \<in> nameOf ` set A"
        unfolding closedIn_def by blast+
      from s(3) obtain m where "m \<in> set A" "nameOf m = None" by force
      then have "''schema'' \<in> defName ` set A2" using A2 nameOf_None_defName by (metis imageI)
      then have "?map (refName r) \<noteq> None" using s(2) by (simp add: keyBy_None)
      with s(1) show ?thesis by blast
    qed
  qed
  from collectNewTypeDefinitions_calm[OF look, of stack A2] obtain new where
    c: "collectNewTypeDefinitions stack A2 (P @ X) d ?map = Inr (new @ implementations d A2)"
    and app: "appendsFor (P @ X) ?map (references d) new"
    by blast
  have n1: "nameOf m \<in> nameOf ` set P" if m: "m \<in> set new" for m
  proof -
    from app m obtain r where r: "r \<in> set (references d)" "\<not> resolved (P @ X) r"
      "?map (refName r) = Some m"
      unfolding appendsFor_def by blast
    from r(2) res have "\<not> resolved pool1 r" by blast
    with cl r(1) have s: "refName r = ''schema''" "None \<in> nameOf ` set pool1"
      unfolding closedIn_def by blast+
    from keyBy_Some[OF r(3)] A2 have "m \<in> set A" "defName m = ''schema''" using s(1) by auto
    then have "nameOf m = None"
      using noSchema by (cases "nameOf m") (auto simp: defName_def rev_image_eqI)
    with s(2) names show ?thesis by simp
  qed
  have n2: "nameOf m \<in> nameOf ` set P" if m: "m \<in> set (implementations d A2)" for m
  proof -
    from m set_implementations_cong[OF A2, of d] have "m \<in> set (implementations d A)" by simp
    with cl have "m \<in> set pool1" unfolding closedIn_def by blast
    then show ?thesis using names by blast
  qed
  have "nameOf ` set (new @ implementations d A2) \<subseteq> nameOf ` set P"
    using n1 n2 by auto
  with c show ?thesis by blast
qed

lemma second_pass:
  assumes cl: "\<forall>d\<in>set P. defName d \<notin> set objectPrototypeNames \<longrightarrow>
                 find (\<lambda>x. defName x = defName d) P = Some d \<longrightarrow> closedIn A pool1 d"
    and names: "nameOf ` set pool1 = nameOf ` set P"
    and noSchema: "Some ''schema'' \<notin> nameOf ` set A"
  shows "set Acur = set A \<Longrightarrow> pool = P @ X \<Longrightarrow> wl = rest @ Y \<Longrightarrow> P = done @ rest \<Longrightarrow>
         set objectPrototypeNames \<union> defName ` set done \<subseteq> vis \<Longrightarrow>
         \<forall>y\<in>set (X @ Y). nameOf y \<in> nameOf ` set P \<Longrightarrow>
           \<exists>A' X'. completeLoop stack Acur pool wl vis = Inr (A', P @ X') \<and>
                   (\<forall>x\<in>set X'. nameOf x \<in> nameOf ` set P)"
proof (induction stack Acur pool wl vis arbitrary: X rest Y "done" rule: completeLoop.induct)
  case (1 stack allDefinitions definitionPool visitedDefinitions)
  then show ?case by simp
next
  case (2 stack allDefinitions definitionPool newDefinition wl' visitedDefinitions)
  have setA: "set (rev allDefinitions) = set A" using "2.prems"(1) by simp
  show ?case
  proof (cases rest)
    case Nil
    with "2.prems"(3,4) have Y: "Y = newDefinition # wl'" and dn: "done = P" by simp_all
    from Y "2.prems"(6) obtain p where "p \<in> set P" "nameOf p = nameOf newDefinition"
      by force
    then have "defName newDefinition \<in> defName ` set done"
      using dn defName_cong by (metis imageI)
    with "2.prems"(5) have vis: "defName newDefinition \<in> visitedDefinitions" by blast
    have "\<forall>y\<in>set (X @ wl'). nameOf y \<in> nameOf ` set P" using "2.prems"(6) Y by auto
    from "2.IH"(1)[OF vis setA "2.prems"(2) _ _ "2.prems"(5) this, of "[]"] dn vis
    show ?thesis by simp
  next
    case (Cons h rest')
    with "2.prems"(3) have h: "h = newDefinition" and wl': "wl' = rest' @ Y" by simp_all
    have P: "P = (done @ [newDefinition]) @ rest'" using "2.prems"(4) Cons h by simp
    show ?thesis
    proof (cases "defName newDefinition \<in> visitedDefinitions")
      case True
      have "set objectPrototypeNames \<union> defName ` set (done @ [newDefinition]) \<subseteq> visitedDefinitions"
        using "2.prems"(5) True by auto
      from "2.IH"(1)[OF True setA "2.prems"(2) wl' P this "2.prems"(6)] True
      show ?thesis by simp
    next
      case False
      have "\<forall>x\<in>set done. defName x \<noteq> defName newDefinition"
        using "2.prems"(5) False by auto
      then have "find (\<lambda>x. defName x = defName newDefinition) done = None"
        by (simp add: find_None_iff)
      then have first: "find (\<lambda>x. defName x = defName newDefinition) P = Some newDefinition"
        using "2.prems"(4) Cons h by (simp add: find_append)
      have "newDefinition \<in> set P" using P by simp
      moreover have "defName newDefinition \<notin> set objectPrototypeNames"
        using "2.prems"(5) False by auto
      ultimately have "closedIn A pool1 newDefinition" using cl first by blast
      from second_step[OF this names noSchema setA, where stack=stack and X=X] "2.prems"(2) obtain C where
        col: "collectNewTypeDefinitions stack (rev allDefinitions) definitionPool newDefinition
                (keyBy (rev allDefinitions) defName) = Inr C"
        and nC: "nameOf ` set C \<subseteq> nameOf ` set P"
        by auto
      have p2: "definitionPool @ C = P @ (X @ C)" using "2.prems"(2) by simp
      have w2: "wl' @ C = rest' @ (Y @ C)" using wl' by simp
      have v2: "set objectPrototypeNames \<union> defName ` set (done @ [newDefinition])
          \<subseteq> insert (defName newDefinition) visitedDefinitions"
        using "2.prems"(5) by auto
      have n2: "\<forall>y\<in>set ((X @ C) @ (Y @ C)). nameOf y \<in> nameOf ` set P"
        using "2.prems"(6) nC by auto
      from "2.IH"(2)[OF False col setA p2 w2 P v2 n2] False col
      show ?thesis by simp
    qed
  qed
qed

lemma second_pass_returns_same:
  assumes cl: "\<forall>d\<in>set P. defName d \<notin> set objectPrototypeNames \<longrightarrow>
                 find (\<lambda>x. defName x = defName d) P = Some d \<longrightarrow> closedIn A pool1 d"
    and names: "nameOf ` set pool1 = nameOf ` set P"
    and noSchema: "Some ''schema'' \<notin> nameOf ` set A"
    and dist: "distinct (map nameOf P)"
    and A2: "set A2 = set A"
  shows "completeDefinitionPool stack A2 P P = Inr P"
proof -
  from second_pass[OF cl names noSchema A2, where pool=P and X="[]" and wl=P and rest=P
      and Y="[]" and ?done="[]" and vis="set objectPrototypeNames" and stack=stack]
  obtain A' X' where
    run: "completeLoop stack A2 P P (set objectPrototypeNames) = Inr (A', P @ X')"
    and nX: "\<forall>x\<in>set X'. nameOf x \<in> nameOf ` set P"
    by auto
  have "uniqBy (P @ X') nameOf = uniqBy P nameOf"
    by (rule uniqBy_append_known) (use nX in auto)
  also have "\<dots> = P" using dist by (rule uniqBy_id)
  finally show ?thesis using run by (simp add: completeDefinitionPool_def)
qed

subsection \<open>The first reference that the pool does not resolve\<close>

















subsection \<open>Where the name of an inherited property comes from\<close>

























section \<open>Import lines\<close>

subsection \<open>String methods\<close>

text \<open>
  The white space of \<^verbatim>\<open>String.prototype.trim\<close> and of \<^verbatim>\<open>\s\<close>, among 8-bit
  characters: tab, line feed, vertical tab, form feed, carriage return, space and the
  no-break space.
\<close>

definition isWhiteSpace :: "char \<Rightarrow> bool" where
  "isWhiteSpace c = (c \<in> {CHR 0x09, CHR 0x0A, CHR 0x0B, CHR 0x0C, CHR 0x0D, CHR '' '', CHR 0xA0})"

text \<open>The line terminators, which \<^verbatim>\<open>.\<close> does not match.\<close>

definition isLineTerminator :: "char \<Rightarrow> bool" where
  "isLineTerminator c = (c \<in> {CHR 0x0A, CHR 0x0D})"

definition trim :: "string \<Rightarrow> string" where
  "trim s = rev (dropWhile isWhiteSpace (rev (dropWhile isWhiteSpace s)))"

text \<open>\<^verbatim>\<open>s.split(c)\<close> for a separator of one character.\<close>

fun split :: "char \<Rightarrow> string \<Rightarrow> string list" where
  "split c [] = [[]]"
| "split c (x # xs) =
     (if x = c then [] # split c xs
      else (case split c xs of [] \<Rightarrow> [[x]] | y # ys \<Rightarrow> (x # y) # ys))"

definition startsWith :: "string \<Rightarrow> string \<Rightarrow> bool" where
  "startsWith s p = (take (length p) s = p)"

text \<open>\<^verbatim>\<open>s.replace(c, '')\<close>: the first occurrence of the character is removed.\<close>

fun removeFirst :: "char \<Rightarrow> string \<Rightarrow> string" where
  "removeFirst c [] = []"
| "removeFirst c (x # xs) = (if x = c then xs else x # removeFirst c xs)"

subsection \<open>Regular expressions\<close>

text \<open>
  The two patterns are matched as a backtracking matcher matches them: alternatives in
  order, quantifiers greedy, and the first way to match the whole line decides the
  capture groups. A pattern is anchored at both ends. \<open>rmatch r s caps k\<close> matches
  \<open>r\<close> at the start of \<open>s\<close> and passes the rest of the input and the groups to the
  continuation \<open>k\<close>; \<open>None\<close> is a failed attempt.
\<close>

datatype char_class = Space | Dot | Quote

fun inClass :: "char_class \<Rightarrow> char \<Rightarrow> bool" where
  "inClass Space c = isWhiteSpace c"
| "inClass Dot c = (\<not> isLineTerminator c)"
| "inClass Quote c = (c = CHR 0x27 \<or> c = CHR 0x22)"

datatype regex =
    Chars string
  | One char_class
  | Star char_class
  | Alt regex regex
  | Seq regex regex
  | Group nat regex
  | Opt regex

type_synonym captures = "nat \<Rightarrow> string option"

text \<open>A greedy \<^verbatim>\<open>c*\<close>: as many characters as possible, then one less, and so on.\<close>

fun starMatch ::
  "char_class \<Rightarrow> string \<Rightarrow> captures \<Rightarrow> (string \<Rightarrow> captures \<Rightarrow> 'a option) \<Rightarrow> 'a option" where
  "starMatch cls [] caps k = k [] caps"
| "starMatch cls (x # xs) caps k =
     (if inClass cls x then
        (case starMatch cls xs caps k of Some r \<Rightarrow> Some r | None \<Rightarrow> k (x # xs) caps)
      else k (x # xs) caps)"

fun rmatch ::
  "regex \<Rightarrow> string \<Rightarrow> captures \<Rightarrow> (string \<Rightarrow> captures \<Rightarrow> 'a option) \<Rightarrow> 'a option" where
  "rmatch (Chars l) s caps k = (if take (length l) s = l then k (drop (length l) s) caps else None)"
| "rmatch (One cls) s caps k =
     (case s of [] \<Rightarrow> None | x # xs \<Rightarrow> if inClass cls x then k xs caps else None)"
| "rmatch (Star cls) s caps k = starMatch cls s caps k"
| "rmatch (Alt a b) s caps k =
     (case rmatch a s caps k of Some r \<Rightarrow> Some r | None \<Rightarrow> rmatch b s caps k)"
| "rmatch (Seq a b) s caps k = rmatch a s caps (\<lambda>s' caps'. rmatch b s' caps' k)"
| "rmatch (Group n a) s caps k =
     rmatch a s caps (\<lambda>s' caps'. k s' (caps'(n \<mapsto> take (length s - length s') s)))"
| "rmatch (Opt a) s caps k =
     (case rmatch a s caps k of Some r \<Rightarrow> Some r | None \<Rightarrow> k s caps)"

text \<open>\<^verbatim>\<open>line.match(/^r$/)\<close>: the capture groups, where the whole line matches.\<close>

definition regexMatch :: "regex \<Rightarrow> string \<Rightarrow> captures option" where
  "regexMatch r s = rmatch r s (\<lambda>n. None) (\<lambda>s' caps. if s' = [] then Some caps else None)"

definition Plus :: "char_class \<Rightarrow> regex" where
  "Plus cls = Seq (One cls) (Star cls)"

text \<open>\<^verbatim>\<open>/^import\s+(\*|(.*))\s+from\s+('|")(.*)('|");?$/\<close>\<close>

definition IMPORT_FROM_REGEX :: regex where
  "IMPORT_FROM_REGEX =
     Seq (Chars ''import'') (Seq (Plus Space)
       (Seq (Group 1 (Alt (Chars ''*'') (Group 2 (Star Dot)))) (Seq (Plus Space)
         (Seq (Chars ''from'') (Seq (Plus Space)
           (Seq (Group 3 (One Quote)) (Seq (Group 4 (Star Dot))
             (Seq (Group 5 (One Quote)) (Opt (Chars '';''))))))))))"

text \<open>\<^verbatim>\<open>/^import\s+('|")(.*)('|");?$/\<close>\<close>

definition IMPORT_DEFAULT_REGEX :: regex where
  "IMPORT_DEFAULT_REGEX =
     Seq (Chars ''import'') (Seq (Plus Space)
       (Seq (Group 1 (One Quote)) (Seq (Group 2 (Star Dot))
         (Seq (Group 3 (One Quote)) (Opt (Chars '';''))))))"

subsection \<open>\<^verbatim>\<open>parseImportLine\<close> and \<^verbatim>\<open>parseSDL\<close>\<close>

record RawModule =
  imports_of :: "string list"
  from_of :: string

definition invalidImport :: "string \<Rightarrow> string" where
  "invalidImport importLine =
     [CHR 0x0A] @ ''    Import statement is not valid: '' @ importLine @ [CHR 0x0A]
     @ ''    If you want to have comments starting with '# import', please use ''
     @ [CHR 0x27, CHR 0x27, CHR 0x27] @ '' instead!'' @ [CHR 0x0A]
     @ ''    You can only have 'import' statements in the following pattern;'' @ [CHR 0x0A]
     @ ''    # import [Type].[Field] from [File]'' @ [CHR 0x0A] @ ''  ''"

definition parseImportLine :: "string \<Rightarrow> error + RawModule" where
  "parseImportLine importLine =
     (case regexMatch IMPORT_FROM_REGEX importLine of
        Some matches \<Rightarrow>
          (case (matches 1, matches 4) of
             (Some wildcard, Some fromPath) \<Rightarrow>
               if fromPath \<noteq> [] then
                 Inr \<lparr>imports_of =
                        (if wildcard = ''*'' then [''*'']
                         else (case matches 2 of
                                 Some importsString \<Rightarrow> map trim (split (CHR '','') importsString)
                               | None \<Rightarrow> [])),
                      from_of = fromPath\<rparr>
               else Inl (Error (invalidImport importLine))
           | _ \<Rightarrow> Inl (Error (invalidImport importLine)))
      | None \<Rightarrow>
          (case regexMatch IMPORT_DEFAULT_REGEX importLine of
             Some matches \<Rightarrow>
               (case matches 2 of
                  Some fromPath \<Rightarrow> Inr \<lparr>imports_of = [''*''], from_of = fromPath\<rparr>
                | None \<Rightarrow> Inl (Error (invalidImport importLine)))
           | None \<Rightarrow> Inl (Error (invalidImport importLine))))"

text \<open>\<^verbatim>\<open>xs.map(f)\<close> where \<open>f\<close> may throw.\<close>

fun mapE :: "('a \<Rightarrow> error + 'b) \<Rightarrow> 'a list \<Rightarrow> error + 'b list" where
  "mapE f [] = Inr []"
| "mapE f (x # xs) =
     (case f x of Inl e \<Rightarrow> Inl e
      | Inr y \<Rightarrow> (case mapE f xs of Inl e \<Rightarrow> Inl e | Inr ys \<Rightarrow> Inr (y # ys)))"

definition parseSDL :: "string \<Rightarrow> error + RawModule list" where
  "parseSDL sdl =
     mapE parseImportLine
       (map (\<lambda>l. trim (removeFirst (CHR ''#'') l))
          (filter (\<lambda>l. startsWith l ''# import '' \<or> startsWith l ''#import '')
             (map trim (split (CHR 0x0A) sdl))))"

subsection \<open>Rendering an import line\<close>

text \<open>
  The text of an import line, as the import directive syntax writes it: the tokens joined
  with a comma and a space, and the path in double quotes.
\<close>

fun joinWith :: "string \<Rightarrow> string list \<Rightarrow> string" where
  "joinWith sep [] = []"
| "joinWith sep [x] = x"
| "joinWith sep (x # y # ys) = x @ sep @ joinWith sep (y # ys)"

definition renderImportLine :: "string list \<Rightarrow> string \<Rightarrow> string" where
  "renderImportLine imports fromPath =
     ''# import '' @ joinWith '', '' imports @ '' from '' @ [CHR 0x22] @ fromPath @ [CHR 0x22]"

definition renderDefaultImport :: "string \<Rightarrow> string" where
  "renderDefaultImport fromPath = ''# import '' @ [CHR 0x22] @ fromPath @ [CHR 0x22]"

definition isQuote :: "char \<Rightarrow> bool" where
  "isQuote c = (c = CHR 0x27 \<or> c = CHR 0x22)"

text \<open>A token or a path without quotes and line terminators.\<close>

definition plainText :: "string \<Rightarrow> bool" where
  "plainText s = (\<forall>c\<in>set s. \<not> isQuote c \<and> \<not> isLineTerminator c)"

definition importToken :: "string \<Rightarrow> bool" where
  "importToken t = (plainText t \<and> CHR '','' \<notin> set t \<and> trim t = t)"

subsection \<open>The language of a pattern\<close>

fun lang :: "regex \<Rightarrow> string set" where
  "lang (Chars l) = {l}"
| "lang (One cls) = {[c] | c. inClass cls c}"
| "lang (Star cls) = {w. \<forall>c\<in>set w. inClass cls c}"
| "lang (Alt a b) = lang a \<union> lang b"
| "lang (Seq a b) = {u @ v | u v. u \<in> lang a \<and> v \<in> lang b}"
| "lang (Group n a) = lang a"
| "lang (Opt a) = insert [] (lang a)"

lemma starMatch_sound:
  "starMatch cls s caps k = Some x \<Longrightarrow>
     \<exists>u s'. s = u @ s' \<and> (\<forall>c\<in>set u. inClass cls c) \<and> k s' caps = Some x"
proof (induction s)
  case Nil
  then have "k [] caps = Some x" by simp
  then show ?case by (intro exI[of _ "[]"]) simp
next
  case (Cons a s)
  show ?case
  proof (cases "inClass cls a")
    case False
    with Cons.prems have "k (a # s) caps = Some x" by simp
    then show ?thesis by (intro exI[of _ "[]"] exI[of _ "a # s"]) simp
  next
    case True
    show ?thesis
    proof (cases "starMatch cls s caps k")
      case None
      with True Cons.prems have "k (a # s) caps = Some x" by simp
      then show ?thesis by (intro exI[of _ "[]"] exI[of _ "a # s"]) simp
    next
      case (Some r)
      with True Cons.prems have "starMatch cls s caps k = Some x" by simp
      from Cons.IH[OF this] obtain u s' where
        u: "s = u @ s'" "\<forall>c\<in>set u. inClass cls c" "k s' caps = Some x"
        by blast
      show ?thesis
        by (intro exI[of _ "a # u"] exI[of _ s']) (use u True in simp)
    qed
  qed
qed

lemma rmatch_sound:
  "rmatch r s caps k = Some x \<Longrightarrow> \<exists>u s' caps'. s = u @ s' \<and> u \<in> lang r \<and> k s' caps' = Some x"
proof (induction r arbitrary: s caps k)
  case (Chars l)
  show ?case
  proof (cases "take (length l) s = l")
    case True
    with Chars have k: "k (drop (length l) s) caps = Some x" by simp
    have "s = l @ drop (length l) s" using True by (metis append_take_drop_id)
    then show ?thesis using k by (intro exI[of _ l] exI[of _ "drop (length l) s"] exI[of _ caps]) simp
  next
    case False
    with Chars show ?thesis by simp
  qed
next
  case (One cls)
  show ?case
  proof (cases s)
    case Nil
    with One show ?thesis by simp
  next
    case (Cons c cs)
    show ?thesis
    proof (cases "inClass cls c")
      case True
      with One Cons have "k cs caps = Some x" by simp
      then show ?thesis using Cons True
        by (intro exI[of _ "[c]"] exI[of _ cs] exI[of _ caps]) simp
    next
      case False
      with One Cons show ?thesis by simp
    qed
  qed
next
  case (Star cls)
  then have "starMatch cls s caps k = Some x" by simp
  from starMatch_sound[OF this] obtain u s' where
    "s = u @ s'" "\<forall>c\<in>set u. inClass cls c" "k s' caps = Some x" by blast
  then show ?case by (intro exI[of _ u] exI[of _ s'] exI[of _ caps]) simp
next
  case (Alt r1 r2)
  show ?case
  proof (cases "rmatch r1 s caps k")
    case None
    with Alt.prems have "rmatch r2 s caps k = Some x" by simp
    from Alt.IH(2)[OF this] obtain u s' c' where "s = u @ s'" "u \<in> lang r2" "k s' c' = Some x"
      by blast
    then show ?thesis by (intro exI[of _ u] exI[of _ s'] exI[of _ c']) simp
  next
    case (Some y)
    with Alt.prems have "rmatch r1 s caps k = Some x" by simp
    from Alt.IH(1)[OF this] obtain u s' c' where "s = u @ s'" "u \<in> lang r1" "k s' c' = Some x"
      by blast
    then show ?thesis by (intro exI[of _ u] exI[of _ s'] exI[of _ c']) simp
  qed
next
  case (Seq r1 r2)
  from Seq.prems have "rmatch r1 s caps (\<lambda>s' caps'. rmatch r2 s' caps' k) = Some x" by simp
  from Seq.IH(1)[OF this] obtain u s1 c1 where
    1: "s = u @ s1" "u \<in> lang r1" "rmatch r2 s1 c1 k = Some x" by blast
  from Seq.IH(2)[OF 1(3)] obtain v s2 c2 where
    2: "s1 = v @ s2" "v \<in> lang r2" "k s2 c2 = Some x" by blast
  have "u @ v \<in> lang (Seq r1 r2)" using 1(2) 2(2) by auto
  then show ?case using 1(1) 2(1,3)
    by (intro exI[of _ "u @ v"] exI[of _ s2] exI[of _ c2]) simp
next
  case (Group n r)
  from Group.prems have
    "rmatch r s caps (\<lambda>s' caps'. k s' (caps'(n \<mapsto> take (length s - length s') s))) = Some x"
    by simp
  from Group.IH[OF this] obtain u s' c' where
    g: "s = u @ s'" "u \<in> lang r" "k s' (c'(n \<mapsto> take (length s - length s') s)) = Some x"
    by blast
  have "u \<in> lang (Group n r)" using g(2) by simp
  with g(1,3) show ?case by blast
next
  case (Opt r)
  show ?case
  proof (cases "rmatch r s caps k")
    case None
    with Opt.prems have "k s caps = Some x" by simp
    then show ?thesis by (intro exI[of _ "[]"] exI[of _ s] exI[of _ caps]) simp
  next
    case (Some y)
    with Opt.prems have "rmatch r s caps k = Some x" by simp
    from Opt.IH[OF this] obtain u s' c' where "s = u @ s'" "u \<in> lang r" "k s' c' = Some x"
      by blast
    then show ?thesis by (intro exI[of _ u] exI[of _ s'] exI[of _ c']) simp
  qed
qed

lemma starMatch_stop:
  "s = [] \<or> \<not> inClass cls (hd s) \<Longrightarrow> starMatch cls s caps k = k s caps"
  by (cases s) auto

lemma starMatch_none:
  "\<forall>c\<in>set u. inClass cls c \<Longrightarrow> v = [] \<or> \<not> inClass cls (hd v) \<Longrightarrow>
   \<forall>i\<le>length u. k (drop i u @ v) caps = None \<Longrightarrow> starMatch cls (u @ v) caps k = None"
proof (induction u)
  case Nil
  then show ?case using starMatch_stop[of v cls caps k] by simp
next
  case (Cons a u)
  have "\<forall>i\<le>length u. k (drop i u @ v) caps = None"
  proof (intro allI impI)
    fix i assume "i \<le> length u"
    then have "k (drop (Suc i) (a # u) @ v) caps = None" using Cons.prems(3) by (metis Suc_le_mono length_Cons)
    then show "k (drop i u @ v) caps = None" by simp
  qed
  with Cons have "starMatch cls (u @ v) caps k = None" by simp
  moreover have "k ((a # u) @ v) caps = None" using Cons.prems(3) by (metis drop0 le0)
  ultimately show ?case using Cons.prems(1) by simp
qed

lemma starMatch_pick:
  assumes "\<forall>c\<in>set (a @ b). inClass cls c" and "v = [] \<or> \<not> inClass cls (hd v)"
    and "\<forall>i. 0 < i \<and> i \<le> length b \<longrightarrow> k (drop i b @ v) caps = None"
    and "k (b @ v) caps = Some r"
  shows "starMatch cls (a @ b @ v) caps k = Some r"
  using assms(1)
proof (induction a)
  case Nil
  show ?case
  proof (cases b)
    case Nil
    with assms(2,4) show ?thesis using starMatch_stop[of v cls caps k] by simp
  next
    case (Cons x b')
    have "\<forall>i\<le>length b'. k (drop i b' @ v) caps = None"
    proof (intro allI impI)
      fix i assume "i \<le> length b'"
      then have "0 < Suc i \<and> Suc i \<le> length b" using Cons by simp
      then have "k (drop (Suc i) b @ v) caps = None" using assms(3) by blast
      then show "k (drop i b' @ v) caps = None" using Cons by simp
    qed
    then have "starMatch cls (b' @ v) caps k = None"
      using starMatch_none[of b' cls v k caps] assms(1,2) Cons by simp
    with assms(1,4) Cons show ?thesis by simp
  qed
next
  case (Cons x a)
  then show ?case by simp
qed

lemma rmatch_Group_Star_pick:
  assumes "\<forall>c\<in>set (a @ b). inClass cls c"
    and "\<forall>i c. 0 < i \<and> i \<le> length b \<longrightarrow> k (drop i b) c = None"
    and "k b (caps(n \<mapsto> a)) = Some r"
  shows "rmatch (Group n (Star cls)) (a @ b) caps k = Some r"
proof -
  let ?k = "\<lambda>s' caps'. k s' (caps'(n \<mapsto> take (length (a @ b) - length s') (a @ b)))"
  have "starMatch cls (a @ b @ []) caps ?k = Some r"
  proof (rule starMatch_pick)
    show "\<forall>c\<in>set (a @ b). inClass cls c" by (rule assms(1))
    show "[] = [] \<or> \<not> inClass cls (hd [])" by simp
    show "\<forall>i. 0 < i \<and> i \<le> length b \<longrightarrow> ?k (drop i b @ []) caps = None"
      using assms(2) by simp
    show "?k (b @ []) caps = Some r" using assms(3) by simp
  qed
  then show ?thesis by simp
qed

definition atEnd :: "string \<Rightarrow> captures \<Rightarrow> captures option" where
  "atEnd s' caps = (if s' = [] then Some caps else None)"

lemma regexMatch_atEnd: "regexMatch r s = rmatch r s (\<lambda>n. None) atEnd"
  unfolding regexMatch_def atEnd_def ..

lemma rmatch_atEnd_lang:
  assumes "rmatch r s caps atEnd = Some x"
  shows "s \<in> lang r"
proof -
  from rmatch_sound[OF assms] obtain u s' caps' where
    "s = u @ s'" "u \<in> lang r" "atEnd s' caps' = Some x" by blast
  then show ?thesis by (cases "s' = []") (simp_all add: atEnd_def)
qed

subsection \<open>The parts of the pattern\<close>

definition quotedPath :: "nat \<Rightarrow> regex" where
  "quotedPath n =
     Seq (Group n (One Quote)) (Seq (Group (n + 1) (Star Dot))
       (Seq (Group (n + 2) (One Quote)) (Opt (Chars '';''))))"

definition fromClause :: regex where
  "fromClause = Seq (Plus Space) (Seq (Chars ''from'') (Seq (Plus Space) (quotedPath 3)))"

definition importList :: regex where
  "importList = Group 1 (Alt (Chars ''*'') (Group 2 (Star Dot)))"

lemma IMPORT_FROM_REGEX_parts:
  "IMPORT_FROM_REGEX = Seq (Chars ''import'') (Seq (Plus Space) (Seq importList fromClause))"
  by (simp add: IMPORT_FROM_REGEX_def importList_def fromClause_def quotedPath_def)

lemma IMPORT_DEFAULT_REGEX_parts:
  "IMPORT_DEFAULT_REGEX = Seq (Chars ''import'') (Seq (Plus Space) (quotedPath 1))"
  by (simp add: IMPORT_DEFAULT_REGEX_def quotedPath_def)

lemma plainText_Dot: "plainText s \<Longrightarrow> \<forall>c\<in>set s. inClass Dot c"
  by (simp add: plainText_def)

lemma rmatch_Group_One:
  "inClass cls x \<Longrightarrow> rmatch (Group n (One cls)) (x # xs) caps k = k xs (caps(n \<mapsto> [x]))"
  by simp

lemma quotedPath_match:
  assumes "plainText F"
  shows "rmatch (quotedPath n) (CHR 0x22 # F @ [CHR 0x22]) caps atEnd =
           Some (caps(n \<mapsto> [CHR 0x22], n + 1 \<mapsto> F, n + 2 \<mapsto> [CHR 0x22]))"
proof -
  let ?q = "CHR 0x22"
  let ?c1 = "caps(n \<mapsto> [?q])"
  let ?k = "\<lambda>s' caps'. rmatch (Seq (Group (n + 2) (One Quote)) (Opt (Chars '';''))) s' caps' atEnd"
  have "rmatch (Group (n + 1) (Star Dot)) (F @ [?q]) ?c1 ?k =
          Some (?c1(n + 1 \<mapsto> F, n + 2 \<mapsto> [?q]))"
  proof (rule rmatch_Group_Star_pick)
    show "\<forall>c\<in>set (F @ [?q]). inClass Dot c"
      using plainText_Dot[OF assms] by (simp add: isLineTerminator_def)
    show "\<forall>i c. 0 < i \<and> i \<le> length [?q] \<longrightarrow> ?k (drop i [?q]) c = None"
      by simp
    show "?k [?q] (?c1(n + 1 \<mapsto> F)) = Some (?c1(n + 1 \<mapsto> F, n + 2 \<mapsto> [?q]))"
      by (simp add: atEnd_def)
  qed
  moreover have "rmatch (quotedPath n) (?q # F @ [?q]) caps atEnd =
      rmatch (Group (n + 1) (Star Dot)) (F @ [?q]) ?c1 ?k"
    unfolding quotedPath_def rmatch.simps(5) by (rule rmatch_Group_One) simp
  ultimately show ?thesis by (simp only:)
qed

lemma rmatch_Plus_one:
  assumes "isWhiteSpace x" and "s = [] \<or> \<not> isWhiteSpace (hd s)"
  shows "rmatch (Plus Space) (x # s) caps k = k s caps"
  using assms starMatch_stop[of s Space caps k] by (simp add: Plus_def)

definition fromTail :: "string \<Rightarrow> string" where
  "fromTail F = '' from '' @ [CHR 0x22] @ F @ [CHR 0x22]"

lemma fromClause_match:
  assumes "plainText F"
  shows "rmatch fromClause (fromTail F) caps atEnd =
           Some (caps(3 \<mapsto> [CHR 0x22], 4 \<mapsto> F, 5 \<mapsto> [CHR 0x22]))"
proof -
  have "rmatch fromClause (fromTail F) caps atEnd =
          rmatch (quotedPath 3) (CHR 0x22 # F @ [CHR 0x22]) caps atEnd"
    by (simp add: fromClause_def fromTail_def rmatch_Plus_one isWhiteSpace_def)
  then show ?thesis using quotedPath_match[OF assms, of 3 caps] by simp
qed

subsection \<open>What a match looks like\<close>

lemma lang_Plus_Space: "w \<in> lang (Plus Space) \<longleftrightarrow> w \<noteq> [] \<and> (\<forall>c\<in>set w. isWhiteSpace c)"
proof (cases w)
  case Nil
  then show ?thesis by (simp add: Plus_def)
next
  case (Cons a v)
  show ?thesis
  proof
    assume "w \<in> lang (Plus Space)"
    then show "w \<noteq> [] \<and> (\<forall>c\<in>set w. isWhiteSpace c)" by (auto simp: Plus_def)
  next
    assume a: "w \<noteq> [] \<and> (\<forall>c\<in>set w. isWhiteSpace c)"
    have "w = [a] @ v" using Cons by simp
    moreover have "[a] \<in> lang (One Space)" using a Cons by simp
    moreover have "v \<in> lang (Star Space)" using a Cons by simp
    ultimately show "w \<in> lang (Plus Space)" unfolding Plus_def lang.simps(5) by blast
  qed
qed

lemma lang_quotedPath:
  assumes "s \<in> lang (quotedPath n)"
  shows "\<exists>q1 d q2 e. s = q1 # d @ q2 # e \<and> isQuote q1 \<and> (e = [] \<or> e = '';'')"
proof -
  from assms obtain a r1 where 1: "s = a @ r1" "a \<in> lang (Group n (One Quote))"
    "r1 \<in> lang (Seq (Group (n + 1) (Star Dot)) (Seq (Group (n + 2) (One Quote)) (Opt (Chars '';''))))"
    unfolding quotedPath_def lang.simps(5) by blast
  from 1(3) obtain d r2 where 2: "r1 = d @ r2"
    "r2 \<in> lang (Seq (Group (n + 2) (One Quote)) (Opt (Chars '';'')))"
    unfolding lang.simps(5) by blast
  from 2(2) obtain b e where 3: "r2 = b @ e" "b \<in> lang (Group (n + 2) (One Quote))"
    "e \<in> lang (Opt (Chars '';''))"
    unfolding lang.simps(5) by blast
  from 1(2) obtain q1 where 4: "a = [q1]" "isQuote q1" by (auto simp: isQuote_def)
  from 3(2) obtain q2 where 5: "b = [q2]" by auto
  have "s = q1 # d @ q2 # e" using 1(1) 2(1) 3(1) 4(1) 5 by simp
  moreover have "e = [] \<or> e = '';''" using 3(3) by auto
  ultimately show ?thesis using 4(2) by blast
qed

lemma lang_fromClause:
  assumes "s \<in> lang fromClause"
  shows "\<exists>w1 w2 q1 d q2 e. s = w1 @ ''from'' @ w2 @ q1 # d @ q2 # e
           \<and> w1 \<noteq> [] \<and> (\<forall>c\<in>set w1. isWhiteSpace c)
           \<and> w2 \<noteq> [] \<and> (\<forall>c\<in>set w2. isWhiteSpace c)
           \<and> isQuote q1 \<and> (e = [] \<or> e = '';'')"
proof -
  from assms obtain w1 r1 where 1: "s = w1 @ r1" "w1 \<in> lang (Plus Space)"
    "r1 \<in> lang (Seq (Chars ''from'') (Seq (Plus Space) (quotedPath 3)))"
    unfolding fromClause_def lang.simps(5) by blast
  from 1(3) obtain w2 r2 where 2: "r1 = ''from'' @ w2 @ r2" "w2 \<in> lang (Plus Space)"
    "r2 \<in> lang (quotedPath 3)"
    unfolding lang.simps(5) lang.simps(1) by blast
  from lang_quotedPath[OF 2(3)] obtain q1 d q2 e where
    3: "r2 = q1 # d @ q2 # e" "isQuote q1" "e = [] \<or> e = '';''" by blast
  have "s = w1 @ ''from'' @ w2 @ q1 # d @ q2 # e" using 1(1) 2(1) 3(1) by simp
  then show ?thesis using 1(2) 2(2) 3(2,3) unfolding lang_Plus_Space by blast
qed

lemma first_occurrence:
  assumes "X @ c # d = A @ c' # F" and "P c" and "\<forall>a\<in>set A. \<not> P a" and "\<forall>a\<in>set F. \<not> P a"
  shows "X = A \<and> d = F"
  using assms
proof (induction X arbitrary: A)
  case Nil
  then show ?case by (cases A) auto
next
  case (Cons x X)
  show ?case
  proof (cases A)
    case Nil
    with Cons.prems have "c \<in> set F" by auto
    with Cons.prems show ?thesis by blast
  next
    case (Cons a A')
    with Cons.prems Cons.IH[of A'] show ?thesis by auto
  qed
qed

lemma quoted_shape:
  assumes eq: "X @ q1 # d @ q2 # e = A @ CHR 0x22 # F @ [CHR 0x22]"
    and "isQuote q1" and e: "e = [] \<or> e = '';''"
    and "\<forall>c\<in>set A. \<not> isQuote c" and "\<forall>c\<in>set F. \<not> isQuote c"
  shows "X = A \<and> d = F \<and> e = []"
proof -
  have e0: "e = []"
  proof (rule ccontr)
    assume "e \<noteq> []"
    with e have "e = '';''" by simp
    then have "last (X @ q1 # d @ q2 # e) = CHR '';''" by simp
    moreover have "last (A @ CHR 0x22 # F @ [CHR 0x22]) = CHR 0x22" by simp
    ultimately show False using eq by simp
  qed
  with eq have "(X @ q1 # d) @ [q2] = (A @ CHR 0x22 # F) @ [CHR 0x22]" by simp
  then have "X @ q1 # d = A @ CHR 0x22 # F" by (simp only: append1_eq_conv)
  from first_occurrence[OF this, of isQuote] assms(2,4,5) e0 show ?thesis by simp
qed

lemma from_shape:
  assumes eq: "X @ w1 @ ''from'' @ w2 = Y @ '' from ''"
    and "w2 \<noteq> []" and ws: "\<forall>c\<in>set w2. isWhiteSpace c"
  shows "X @ w1 = Y @ '' ''"
proof -
  from assms(2) obtain v c where w2: "w2 = v @ [c]" by (cases w2 rule: rev_cases) auto
  with eq have "(X @ w1 @ ''from'' @ v) @ [c] = (Y @ '' from'') @ [CHR '' '']" by simp
  then have 1: "X @ w1 @ ''from'' @ v = Y @ '' from''" by (simp only: append1_eq_conv)
  have "v = []"
  proof (rule ccontr)
    assume "v \<noteq> []"
    then obtain u b where v: "v = u @ [b]" by (cases v rule: rev_cases) auto
    with 1 have "(X @ w1 @ ''from'' @ u) @ [b] = (Y @ '' fro'') @ [CHR ''m'']" by simp
    then have "b = CHR ''m''" by (simp only: append1_eq_conv)
    moreover have "isWhiteSpace b" using ws w2 v by simp
    ultimately show False by (simp add: isWhiteSpace_def)
  qed
  with 1 have "(X @ w1) @ ''from'' = (Y @ '' '') @ ''from''" by simp
  then show ?thesis by (simp only: append_same_eq)
qed

lemma plainText_fromTail: "plainText F \<Longrightarrow> \<forall>c\<in>set (fromTail F). inClass Dot c"
  by (auto simp: plainText_def fromTail_def isLineTerminator_def)

lemma fromClause_shape:
  assumes S: "S \<in> lang fromClause" and eq: "X @ S = Y @ fromTail F"
    and Y: "\<forall>c\<in>set Y. \<not> isQuote c" and F: "\<forall>c\<in>set F. \<not> isQuote c"
  shows "\<exists>w1. X @ w1 = Y @ '' '' \<and> w1 \<noteq> [] \<and> (\<forall>c\<in>set w1. isWhiteSpace c)"
proof -
  from lang_fromClause[OF S] obtain w1 w2 q1 d q2 e where
    s: "S = w1 @ ''from'' @ w2 @ q1 # d @ q2 # e"
    and w: "w1 \<noteq> []" "\<forall>c\<in>set w1. isWhiteSpace c" "w2 \<noteq> []" "\<forall>c\<in>set w2. isWhiteSpace c"
    and q: "isQuote q1" "e = [] \<or> e = '';''" by blast
  have "(X @ w1 @ ''from'' @ w2) @ q1 # d @ q2 # e = (Y @ '' from '') @ CHR 0x22 # F @ [CHR 0x22]"
    using eq s by (simp add: fromTail_def)
  moreover have "\<forall>c\<in>set (Y @ '' from ''). \<not> isQuote c" using Y by (auto simp: isQuote_def)
  ultimately have "X @ w1 @ ''from'' @ w2 = Y @ '' from ''"
    using quoted_shape[of "X @ w1 @ ''from'' @ w2" q1 d q2 e "Y @ '' from ''" F] q F by blast
  from from_shape[OF this w(3,4)] w(1,2) show ?thesis by blast
qed

lemma fromClause_suffix_fails:
  assumes "plainText F" and "0 < i" and "i \<le> length (fromTail F)"
  shows "rmatch fromClause (drop i (fromTail F)) c atEnd = None"
proof (rule ccontr)
  assume "rmatch fromClause (drop i (fromTail F)) c atEnd \<noteq> None"
  then obtain x where "rmatch fromClause (drop i (fromTail F)) c atEnd = Some x" by blast
  then have "drop i (fromTail F) \<in> lang fromClause" by (rule rmatch_atEnd_lang)
  moreover have "take i (fromTail F) @ drop i (fromTail F) = [] @ fromTail F" by simp
  moreover have "\<forall>c\<in>set F. \<not> isQuote c" using assms(1) by (simp add: plainText_def)
  ultimately obtain w1 where "take i (fromTail F) @ w1 = [] @ '' ''" "w1 \<noteq> []"
    using fromClause_shape[of "drop i (fromTail F)" "take i (fromTail F)" "[]" F] by auto
  then have "length (take i (fromTail F)) + length w1 = 1" "0 < length w1"
    by (metis length_append append_Nil length_Cons list.size(3) One_nat_def, simp)
  then show False using assms(2,3) by simp
qed

lemma importList_fromClause:
  assumes J: "plainText J" and F: "plainText F"
    and star: "\<And>J'. J = CHR ''*'' # J' \<Longrightarrow> \<forall>c\<in>set J'. isWhiteSpace c \<Longrightarrow> J' = []"
  shows "rmatch (Seq importList fromClause) (J @ fromTail F) caps atEnd =
           Some ((if J = ''*'' then caps(1 \<mapsto> J) else caps(2 \<mapsto> J, 1 \<mapsto> J))
                   (3 \<mapsto> [CHR 0x22], 4 \<mapsto> F, 5 \<mapsto> [CHR 0x22]))"
proof -
  let ?s = "J @ fromTail F"
  let ?k = "\<lambda>s' c'. rmatch fromClause s' (c'(1 \<mapsto> take (length ?s - length s') ?s)) atEnd"
  have expand: "rmatch (Seq importList fromClause) ?s caps atEnd =
      (case rmatch (Chars ''*'') ?s caps ?k of Some r \<Rightarrow> Some r
       | None \<Rightarrow> rmatch (Group 2 (Star Dot)) ?s caps ?k)"
    unfolding importList_def rmatch.simps(5) rmatch.simps(6)[of 1] rmatch.simps(4) ..
  show ?thesis
  proof (cases "J = ''*''")
    case True
    have "rmatch (Chars ''*'') ?s caps ?k = rmatch fromClause (fromTail F) (caps(1 \<mapsto> J)) atEnd"
      using True by simp
    then show ?thesis using True expand fromClause_match[OF F] by simp
  next
    case False
    have none: "rmatch (Chars ''*'') ?s caps ?k = None"
    proof (cases "take 1 ?s = ''*''")
      case False
      then show ?thesis by simp
    next
      case True
      have "J \<noteq> []" using True by (auto simp: fromTail_def)
      then obtain J' where J': "J = CHR ''*'' # J'" using True by (cases J) auto
      show ?thesis
      proof (rule ccontr)
        assume "rmatch (Chars ''*'') ?s caps ?k \<noteq> None"
        then obtain x where
          "rmatch fromClause (J' @ fromTail F) (caps(1 \<mapsto> ''*'')) atEnd = Some x"
          using J' by auto
        then have "J' @ fromTail F \<in> lang fromClause" by (rule rmatch_atEnd_lang)
        moreover have "''*'' @ (J' @ fromTail F) = J @ fromTail F" using J' by simp
        moreover have "\<forall>c\<in>set J. \<not> isQuote c" "\<forall>c\<in>set F. \<not> isQuote c"
          using J F by (simp_all add: plainText_def)
        ultimately obtain w1 where "''*'' @ w1 = J @ '' ''" "\<forall>c\<in>set w1. isWhiteSpace c"
          using fromClause_shape[of "J' @ fromTail F" "''*''" J F] by blast
        then have "\<forall>c\<in>set J'. isWhiteSpace c" using J' by auto
        from star[OF J' this] J' \<open>J \<noteq> ''*''\<close> show False by simp
      qed
    qed
    have "rmatch (Group 2 (Star Dot)) ?s caps ?k =
        Some (caps(2 \<mapsto> J, 1 \<mapsto> J, 3 \<mapsto> [CHR 0x22], 4 \<mapsto> F, 5 \<mapsto> [CHR 0x22]))"
    proof (rule rmatch_Group_Star_pick)
      show "\<forall>c\<in>set (J @ fromTail F). inClass Dot c"
        using plainText_Dot[OF J] plainText_fromTail[OF F] by auto
      show "\<forall>i c. 0 < i \<and> i \<le> length (fromTail F) \<longrightarrow> ?k (drop i (fromTail F)) c = None"
        using fromClause_suffix_fails[OF F] by blast
      show "?k (fromTail F) (caps(2 \<mapsto> J)) =
          Some (caps(2 \<mapsto> J, 1 \<mapsto> J, 3 \<mapsto> [CHR 0x22], 4 \<mapsto> F, 5 \<mapsto> [CHR 0x22]))"
        using fromClause_match[OF F] by simp
    qed
    with none expand False show ?thesis by simp
  qed
qed

lemma importList_fromClause_none:
  assumes F: "plainText F"
  shows "rmatch (Seq importList fromClause) (drop 1 (fromTail F)) caps atEnd = None"
proof (rule ccontr)
  assume "rmatch (Seq importList fromClause) (drop 1 (fromTail F)) caps atEnd \<noteq> None"
  then obtain x where "rmatch (Seq importList fromClause) (drop 1 (fromTail F)) caps atEnd = Some x"
    by blast
  then have "drop 1 (fromTail F) \<in> lang (Seq importList fromClause)" by (rule rmatch_atEnd_lang)
  then obtain u S where u: "drop 1 (fromTail F) = u @ S" "S \<in> lang fromClause"
    unfolding lang.simps(5) by blast
  have "fromTail F = '' '' @ drop 1 (fromTail F)" by (simp add: fromTail_def)
  with u(1) have "('' '' @ u) @ S = [] @ fromTail F" by simp
  moreover have "\<forall>c\<in>set F. \<not> isQuote c" using F by (simp add: plainText_def)
  ultimately obtain w1 where "('' '' @ u) @ w1 = [] @ '' ''" "w1 \<noteq> []"
    using fromClause_shape[of S "'' '' @ u" "[]" F] u(2) by auto
  then show False by simp
qed

lemma IMPORT_FROM_REGEX_match:
  assumes J: "plainText J" and F: "plainText F"
    and star: "\<And>J'. J = CHR ''*'' # J' \<Longrightarrow> \<forall>c\<in>set J'. isWhiteSpace c \<Longrightarrow> J' = []"
    and hd: "J = [] \<or> \<not> isWhiteSpace (hd J)"
  shows "regexMatch IMPORT_FROM_REGEX (''import '' @ J @ fromTail F) =
           Some ((if J = ''*'' then (\<lambda>n. None)(1 \<mapsto> J) else (\<lambda>n. None)(2 \<mapsto> J, 1 \<mapsto> J))
                   (3 \<mapsto> [CHR 0x22], 4 \<mapsto> F, 5 \<mapsto> [CHR 0x22]))"
    (is "_ = Some ?R")
proof -
  let ?k = "\<lambda>s' c'. rmatch (Seq importList fromClause) s' c' atEnd"
  let ?c = "\<lambda>n::nat. None :: string option"
  have 1: "regexMatch IMPORT_FROM_REGEX (''import '' @ J @ fromTail F) =
      rmatch (Plus Space) (CHR '' '' # J @ fromTail F) ?c ?k"
    unfolding regexMatch_atEnd IMPORT_FROM_REGEX_parts by simp
  have 3: "?k (J @ fromTail F) ?c = Some ?R"
    using importList_fromClause[OF J F star, of ?c] by simp
  have 2: "rmatch (Plus Space) (CHR '' '' # J @ fromTail F) ?c ?k = Some ?R"
  proof (cases "J = []")
    case False
    with hd have "\<not> isWhiteSpace (hd (J @ fromTail F))" by simp
    then have "rmatch (Plus Space) (CHR '' '' # J @ fromTail F) ?c ?k = ?k (J @ fromTail F) ?c"
      by (intro rmatch_Plus_one) (simp_all add: isWhiteSpace_def)
    with 3 show ?thesis by simp
  next
    case True
    let ?v = "drop 1 (fromTail F)"
    have v: "'' '' @ ?v = fromTail F" by (simp add: fromTail_def)
    have "starMatch Space ([] @ '' '' @ ?v) ?c ?k = Some ?R"
    proof (rule starMatch_pick)
      show "\<forall>c\<in>set ([] @ '' ''). inClass Space c" by (simp add: isWhiteSpace_def)
      show "?v = [] \<or> \<not> inClass Space (hd ?v)" by (simp add: fromTail_def isWhiteSpace_def)
      show "\<forall>i. 0 < i \<and> i \<le> length '' '' \<longrightarrow> ?k (drop i '' '' @ ?v) ?c = None"
      proof (intro allI impI)
        fix i :: nat assume "0 < i \<and> i \<le> length '' ''"
        then have "i = 1" by simp
        then show "?k (drop i '' '' @ ?v) ?c = None"
          using importList_fromClause_none[OF F, of ?c] by simp
      qed
      show "?k ('' '' @ ?v) ?c = Some ?R" using 3 True v by simp
    qed
    then have "starMatch Space (fromTail F) ?c ?k = Some ?R" unfolding append_Nil v .
    moreover have "rmatch (Plus Space) (CHR '' '' # J @ fromTail F) ?c ?k =
        starMatch Space (fromTail F) ?c ?k"
      using True by (simp add: Plus_def isWhiteSpace_def)
    ultimately show ?thesis by (simp only:)
  qed
  from 1 2 show ?thesis by simp
qed

lemma parseImportLine_Some:
  assumes "regexMatch IMPORT_FROM_REGEX l = Some m" and "m 1 = Some w" and "m 4 = Some F"
    and "F \<noteq> []"
  shows "parseImportLine l =
           Inr \<lparr>imports_of =
                  (if w = ''*'' then [''*'']
                   else (case m 2 of Some importsString \<Rightarrow> map trim (split (CHR '','') importsString)
                         | None \<Rightarrow> [])),
                from_of = F\<rparr>"
  using assms by (simp add: parseImportLine_def)

lemma parseImportLine_None:
  assumes "regexMatch IMPORT_FROM_REGEX l = None" and "regexMatch IMPORT_DEFAULT_REGEX l = Some m"
    and "m 2 = Some F"
  shows "parseImportLine l = Inr \<lparr>imports_of = [''*''], from_of = F\<rparr>"
  using assms by (simp add: parseImportLine_def)

lemma parseImportLine_from:
  assumes J: "plainText J" and F: "plainText F" and "F \<noteq> []"
    and star: "\<And>J'. J = CHR ''*'' # J' \<Longrightarrow> \<forall>c\<in>set J'. isWhiteSpace c \<Longrightarrow> J' = []"
    and hd: "J = [] \<or> \<not> isWhiteSpace (hd J)"
  shows "parseImportLine (''import '' @ J @ fromTail F) =
           Inr \<lparr>imports_of = (if J = ''*'' then [''*''] else map trim (split (CHR '','') J)),
                from_of = F\<rparr>"
proof (cases "J = ''*''")
  case True
  show ?thesis
    using parseImportLine_Some[OF IMPORT_FROM_REGEX_match[OF J F star hd], of J F] True \<open>F \<noteq> []\<close>
    by simp
next
  case False
  show ?thesis
    using parseImportLine_Some[OF IMPORT_FROM_REGEX_match[OF J F star hd], of J F] False \<open>F \<noteq> []\<close>
    by simp
qed

lemma IMPORT_FROM_REGEX_bare:
  assumes F: "plainText F"
  shows "regexMatch IMPORT_FROM_REGEX (''import '' @ CHR 0x22 # F @ [CHR 0x22]) = None"
proof (rule ccontr)
  let ?s = "''import '' @ CHR 0x22 # F @ [CHR 0x22]"
  assume "regexMatch IMPORT_FROM_REGEX ?s \<noteq> None"
  then obtain x where "rmatch IMPORT_FROM_REGEX ?s (\<lambda>n. None) atEnd = Some x"
    unfolding regexMatch_atEnd by blast
  then have "?s \<in> lang IMPORT_FROM_REGEX" by (rule rmatch_atEnd_lang)
  then obtain r1 where 1: "?s = ''import'' @ r1"
    "r1 \<in> lang (Seq (Plus Space) (Seq importList fromClause))"
    unfolding IMPORT_FROM_REGEX_parts lang.simps(5) lang.simps(1) by blast
  from 1(2) obtain w0 r2 where 2: "r1 = w0 @ r2" "w0 \<in> lang (Plus Space)"
    "r2 \<in> lang (Seq importList fromClause)"
    unfolding lang.simps(5) by blast
  from 2(3) obtain u S where 3: "r2 = u @ S" "S \<in> lang fromClause"
    unfolding lang.simps(5) by blast
  from lang_fromClause[OF 3(2)] obtain w1 w2 q1 d q2 e where
    s: "S = w1 @ ''from'' @ w2 @ q1 # d @ q2 # e"
    and q: "isQuote q1" "e = [] \<or> e = '';''" by blast
  have "(''import'' @ w0 @ u @ w1 @ ''from'' @ w2) @ q1 # d @ q2 # e =
      ''import '' @ CHR 0x22 # F @ [CHR 0x22]"
    using 1(1) 2(1) 3(1) s by simp
  moreover have "\<forall>c\<in>set ''import ''. \<not> isQuote c" by (simp add: isQuote_def)
  moreover have "\<forall>c\<in>set F. \<not> isQuote c" using F by (simp add: plainText_def)
  ultimately have "''import'' @ w0 @ u @ w1 @ ''from'' @ w2 = ''import ''"
    using quoted_shape[of "''import'' @ w0 @ u @ w1 @ ''from'' @ w2" q1 d q2 e "''import ''" F] q
    by blast
  then have "length (''import'' @ w0 @ u @ w1 @ ''from'' @ w2) = length ''import ''"
    by (simp only:)
  then show False by simp
qed

lemma IMPORT_DEFAULT_REGEX_match:
  assumes F: "plainText F"
  shows "regexMatch IMPORT_DEFAULT_REGEX (''import '' @ CHR 0x22 # F @ [CHR 0x22]) =
           Some ((\<lambda>n. None)(1 \<mapsto> [CHR 0x22], 2 \<mapsto> F, 3 \<mapsto> [CHR 0x22]))"
proof -
  have "regexMatch IMPORT_DEFAULT_REGEX (''import '' @ CHR 0x22 # F @ [CHR 0x22]) =
      rmatch (quotedPath 1) (CHR 0x22 # F @ [CHR 0x22]) (\<lambda>n. None) atEnd"
    unfolding regexMatch_atEnd IMPORT_DEFAULT_REGEX_parts
    by (simp add: rmatch_Plus_one isWhiteSpace_def)
  moreover have "rmatch (quotedPath 1) (CHR 0x22 # F @ [CHR 0x22]) (\<lambda>n. None) atEnd =
      Some ((\<lambda>n. None)(1 \<mapsto> [CHR 0x22], 2 \<mapsto> F, 3 \<mapsto> [CHR 0x22]))"
    using quotedPath_match[OF F, of 1 "\<lambda>n. None"] by (simp add: numeral_2_eq_2 numeral_3_eq_3)
  ultimately show ?thesis by (simp only:)
qed

lemma parseImportLine_bare:
  assumes F: "plainText F"
  shows "parseImportLine (''import '' @ CHR 0x22 # F @ [CHR 0x22]) =
           Inr \<lparr>imports_of = [''*''], from_of = F\<rparr>"
  by (rule parseImportLine_None[OF IMPORT_FROM_REGEX_bare[OF F] IMPORT_DEFAULT_REGEX_match[OF F]])
    simp

subsection \<open>Splitting, joining and trimming\<close>

lemma split_ne: "split c s \<noteq> []"
  by (induction s) (auto split: list.splits)

lemma split_none: "c \<notin> set s \<Longrightarrow> split c s = [s]"
  by (induction s) auto

lemma split_append_sep: "c \<notin> set a \<Longrightarrow> split c (a @ c # r) = a # split c r"
proof (induction a)
  case Nil
  then show ?case by simp
next
  case (Cons x a)
  then show ?case using split_ne[of c r] by (cases "split c r") auto
qed

lemma trim_ws_prefix: "\<forall>c\<in>set w. isWhiteSpace c \<Longrightarrow> trim (w @ t) = trim t"
  by (simp add: trim_def dropWhile_append2)

lemma dropWhile_id: "s = [] \<or> \<not> P (hd s) \<Longrightarrow> dropWhile P s = s"
  by (cases s) auto

lemma trim_id:
  assumes "s = [] \<or> (\<not> isWhiteSpace (hd s) \<and> \<not> isWhiteSpace (last s))"
  shows "trim s = s"
proof (cases "s = []")
  case True
  then show ?thesis by (simp add: trim_def)
next
  case False
  with assms have "\<not> isWhiteSpace (hd s)" "\<not> isWhiteSpace (hd (rev s))"
    by (simp_all add: hd_rev)
  then show ?thesis using False by (simp add: trim_def dropWhile_id)
qed

lemma length_trim: "length (trim s) \<le> length (dropWhile isWhiteSpace s)"
  using length_dropWhile_le[of isWhiteSpace "rev (dropWhile isWhiteSpace s)"]
  by (simp add: trim_def)

lemma trimmed_hd:
  assumes "trim t = t" and "t \<noteq> []"
  shows "\<not> isWhiteSpace (hd t)"
proof
  assume ws: "isWhiteSpace (hd t)"
  from assms(2) obtain x xs where t: "t = x # xs" by (cases t) auto
  have "length (dropWhile isWhiteSpace t) \<le> length xs"
    using ws t length_dropWhile_le[of isWhiteSpace xs] by simp
  with length_trim[of t] assms(1) t show False by simp
qed

lemma trimmed_last:
  assumes "trim t = t" and "t \<noteq> []"
  shows "\<not> isWhiteSpace (last t)"
proof
  assume ws: "isWhiteSpace (last t)"
  from assms(2) obtain xs x where t: "t = xs @ [x]" by (cases t rule: rev_cases) auto
  let ?d = "dropWhile isWhiteSpace t"
  have "length (trim t) = length (dropWhile isWhiteSpace (rev ?d))" by (simp add: trim_def)
  have "length t \<le> length ?d" using assms(1) length_trim[of t] by simp
  moreover have "0 < length t" using assms(2) by simp
  ultimately have "0 < length ?d" by linarith
  then have "?d \<noteq> []" using length_greater_0_conv by blast
  moreover have "last ?d = x"
  proof -
    obtain p where p: "t = p @ ?d" by (metis takeWhile_dropWhile_id)
    with \<open>?d \<noteq> []\<close> have "last t = last ?d" by (metis last_appendR)
    then show ?thesis using t by simp
  qed
  ultimately obtain ys where d: "?d = ys @ [x]" by (metis append_butlast_last_id)
  have "length (dropWhile isWhiteSpace (rev ?d)) \<le> length ys"
    using d ws t length_dropWhile_le[of isWhiteSpace "rev ys"] by simp
  moreover have "length ?d \<le> length t" by (rule length_dropWhile_le)
  ultimately have "length (trim t) < length ?d" using d by (simp add: trim_def)
  with assms(1) \<open>length ?d \<le> length t\<close> show False by simp
qed

lemma comma_not_ws:
  assumes "\<forall>c\<in>set w. isWhiteSpace c"
  shows "CHR '','' \<notin> set w"
proof
  assume "CHR '','' \<in> set w"
  with assms have "isWhiteSpace (CHR '','')" by blast
  then show False by (simp add: isWhiteSpace_def)
qed

lemma split_join:
  assumes "ts \<noteq> []" and "\<forall>t\<in>set ts. importToken t" and "\<forall>c\<in>set w. isWhiteSpace c"
  shows "map trim (split (CHR '','') (w @ joinWith '', '' ts)) = ts"
  using assms
proof (induction ts arbitrary: w)
  case Nil
  then show ?case by simp
next
  case (Cons t ts)
  have t: "CHR '','' \<notin> set t" "trim t = t" using Cons.prems(2) by (simp_all add: importToken_def)
  have wt: "CHR '','' \<notin> set (w @ t)" using t(1) comma_not_ws[OF Cons.prems(3)] by simp
  have trim_wt: "trim (w @ t) = t" using trim_ws_prefix[OF Cons.prems(3), of t] t(2) by simp
  show ?case
  proof (cases ts)
    case Nil
    then show ?thesis using split_none[OF wt] trim_wt by simp
  next
    case (Cons t' ts')
    have "w @ joinWith '', '' (t # ts) = (w @ t) @ CHR '','' # ('' '' @ joinWith '', '' ts)"
      using Cons by simp
    then have "split (CHR '','') (w @ joinWith '', '' (t # ts)) =
        (w @ t) # split (CHR '','') ('' '' @ joinWith '', '' ts)"
      using split_append_sep[OF wt] by (simp only:)
    moreover have "map trim (split (CHR '','') ('' '' @ joinWith '', '' ts)) = ts"
      using Cons.IH[of "'' ''"] Cons Cons.prems(2) by (simp add: isWhiteSpace_def)
    ultimately show ?thesis using trim_wt by simp
  qed
qed

lemma plainText_joinWith:
  "\<forall>t\<in>set ts. importToken t \<Longrightarrow> plainText (joinWith '', '' ts)"
proof (induction "'', ''" ts rule: joinWith.induct)
  case 1
  then show ?case by (simp add: plainText_def)
next
  case (2 x)
  then show ?case by (simp add: importToken_def)
next
  case (3 x y ys)
  then have "plainText x" "plainText (joinWith '', '' (y # ys))" by (simp_all add: importToken_def)
  then show ?case by (auto simp: plainText_def isQuote_def isLineTerminator_def)
qed

lemma joinWith_hd:
  assumes "\<forall>t\<in>set ts. importToken t"
  shows "joinWith '', '' ts = [] \<or> \<not> isWhiteSpace (hd (joinWith '', '' ts))"
proof (cases ts)
  case Nil
  then show ?thesis by simp
next
  case (Cons t ts')
  then have t: "trim t = t" using assms by (simp add: importToken_def)
  show ?thesis
  proof (cases ts')
    case Nil
    then show ?thesis using Cons trimmed_hd[OF t] by auto
  next
    case (Cons t' ts'')
    show ?thesis
    proof (cases "t = []")
      case True
      then show ?thesis using \<open>ts = t # ts'\<close> Cons by (simp add: isWhiteSpace_def)
    next
      case False
      then show ?thesis using \<open>ts = t # ts'\<close> Cons trimmed_hd[OF t] by simp
    qed
  qed
qed

lemma joinWith_star:
  assumes "\<forall>t\<in>set ts. importToken t" and "joinWith '', '' ts = CHR ''*'' # J'"
    and ws: "\<forall>c\<in>set J'. isWhiteSpace c"
  shows "J' = []"
proof (cases ts)
  case Nil
  then show ?thesis using assms(2) by simp
next
  case (Cons t ts')
  then have t: "trim t = t" using assms(1) by (simp add: importToken_def)
  show ?thesis
  proof (cases ts')
    case Nil
    with Cons assms(2) have eq: "t = CHR ''*'' # J'" by simp
    show ?thesis
    proof (rule ccontr)
      assume "J' \<noteq> []"
      then have "last t = last J'" "last J' \<in> set J'" using eq by simp_all
      then have "isWhiteSpace (last t)" using ws by simp
      then show False using trimmed_last[OF t] eq by simp
    qed
  next
    case (Cons t' ts'')
    then have "CHR '','' \<in> set (joinWith '', '' ts)" using \<open>ts = t # ts'\<close> by simp
    then have "CHR '','' \<in> set J'" using assms(2) by simp
    then show ?thesis using comma_not_ws[OF ws] by simp
  qed
qed

lemma mapE_single: "mapE f [x] = (case f x of Inl e \<Rightarrow> Inl e | Inr y \<Rightarrow> Inr [y])"
  by (simp split: sum.splits)

lemma parseSDL_single:
  assumes "CHR 0x0A \<notin> set body" and "body \<noteq> []" and "\<not> isWhiteSpace (last body)"
  shows "parseSDL (''# import '' @ body) = mapE parseImportLine [''import '' @ body]"
proof -
  let ?l = "''# import '' @ body"
  have 1: "split (CHR 0x0A) ?l = [?l]" using assms(1) by (intro split_none) simp
  have 2: "trim ?l = ?l" using assms(2,3) by (intro trim_id) (simp add: isWhiteSpace_def)
  have 3: "startsWith ?l ''# import ''" by (simp add: startsWith_def)
  have 4: "removeFirst (CHR ''#'') ?l = '' '' @ (''import '' @ body)" by simp
  have 5: "trim ('' '' @ (''import '' @ body)) = trim (''import '' @ body)"
    by (intro trim_ws_prefix) (simp add: isWhiteSpace_def)
  have 6: "trim (''import '' @ body) = ''import '' @ body"
    using assms(2,3) by (intro trim_id) (simp add: isWhiteSpace_def)
  have a: "map trim (split (CHR 0x0A) ?l) = [?l]" using 1 2 by simp
  have b: "filter (\<lambda>l. startsWith l ''# import '' \<or> startsWith l ''#import '') [?l] = [?l]"
    using 3 by simp
  have c: "map (\<lambda>l. trim (removeFirst (CHR ''#'') l)) [?l] = [''import '' @ body]"
    using 4 5 6 by simp
  show ?thesis unfolding parseSDL_def a b c ..
qed

section \<open>Collecting sources\<close>

text \<open>
  A source: its location, and what is known of its content. The schema object of a source
  is opaque, of a type \<open>'s\<close>; a document is the list of its definitions.
\<close>

record 's Source =
  location :: string
  document :: "definition_node list option"
  rawSDL :: "string option"
  schema :: "'s option"

text \<open>
  What a custom loader returns, as \<^verbatim>\<open>addResultOfCustomLoader\<close> tells the values apart: a
  schema object, a document node, an object with a \<^verbatim>\<open>document\<close> property (and maybe a
  location, the text and a schema of its own), or any other value that is not falsy.
\<close>

datatype 's loader_result =
    SchemaResult 's
  | DocumentResult "definition_node list"
  | SourceResult "string option" "definition_node list" "string option" "'s option"
  | OtherResult

text \<open>
  The state of \<^verbatim>\<open>collectSourcesSync\<close>: the array \<^verbatim>\<open>sources\<close> and the object
  \<^verbatim>\<open>options.cache\<close>, which \<^verbatim>\<open>applyDefaultOptions\<close> creates as \<^verbatim>\<open>{}\<close>: the keys of its own,
  from pointers to sources, and its prototype, \<open>None\<close> for \<^verbatim>\<open>Object.prototype\<close>. The
  assignment \<^verbatim>\<open>options.cache[pointer] = source\<close> stores the source under the pointer; for
  the pointer \<^verbatim>\<open>__proto__\<close> it stores no key and makes the source the prototype of the
  cache.
\<close>

record 's collector =
  sources :: "'s Source list"
  cache :: "string \<rightharpoonup> 's Source"
  cachePrototype :: "'s Source option"

definition addSource :: "string \<Rightarrow> 's Source \<Rightarrow> bool \<Rightarrow> 's collector \<Rightarrow> 's collector" where
  "addSource pointer source noCache st =
     st\<lparr>sources := sources st @ [source],
        cache := (if noCache \<or> pointer = ''__proto__'' then cache st
                  else (cache st)(pointer \<mapsto> source)),
        cachePrototype := (if \<not> noCache \<and> pointer = ''__proto__'' then Some source
                           else cachePrototype st)\<rparr>"

text \<open>
  \<open>printAndParse\<close> is \<^verbatim>\<open>parse(printSchemaWithDirectives(result))\<close>, of other packages. Only the
  first branch passes \<^verbatim>\<open>noCache\<close>.
\<close>

definition addResultOfCustomLoader ::
  "('s \<Rightarrow> error + definition_node list) \<Rightarrow> string \<Rightarrow> 's loader_result \<Rightarrow> 's collector
     \<Rightarrow> error + 's collector" where
  "addResultOfCustomLoader printAndParse pointer result st =
     (case result of
        SchemaResult s \<Rightarrow>
          bindE (printAndParse s) (\<lambda>doc.
            Inr (addSource pointer
                   \<lparr>location = pointer, document = Some doc, rawSDL = None, schema = Some s\<rparr>
                   True st))
      | DocumentResult doc \<Rightarrow>
          Inr (addSource pointer
                 \<lparr>location = pointer, document = Some doc, rawSDL = None, schema = None\<rparr>
                 False st)
      | SourceResult loc doc sdl s \<Rightarrow>
          Inr (addSource pointer
                 \<lparr>location = (case loc of Some l \<Rightarrow> l | None \<Rightarrow> pointer),
                  document = Some doc, rawSDL = sdl, schema = s\<rparr>
                 False st)
      | OtherResult \<Rightarrow> Inr st)"

text \<open>
  A custom loader is given by a path or as a function; a loader returns a result, a falsy
  value (\<open>None\<close>) or throws. \<open>getCustomLoaderByPathSync\<close> requires the module and
  returns no loader where that fails.
\<close>

type_synonym 's custom_loader = "string \<Rightarrow> error + 's loader_result option"

datatype 's loader_pointer =
    LoaderPath string
  | LoaderFunction "'s custom_loader"
  | LoaderOther string

definition failedToLoad :: "string \<Rightarrow> string" where
  "failedToLoad loaderPointer = ''Failed to load custom loader: '' @ loaderPointer"

definition useCustomLoaderSync ::
  "(string \<Rightarrow> 's custom_loader option) \<Rightarrow> 's loader_pointer \<Rightarrow> error + 's custom_loader" where
  "useCustomLoaderSync getCustomLoaderByPathSync loaderPointer =
     (case loaderPointer of
        LoaderPath path \<Rightarrow>
          (case getCustomLoaderByPathSync path of
             Some loader \<Rightarrow> Inr loader
           | None \<Rightarrow> Inl (Error (failedToLoad path)))
      | LoaderFunction loader \<Rightarrow> Inr loader
      | LoaderOther shown \<Rightarrow> Inl (Error (failedToLoad shown)))"

text \<open>The task that \<^verbatim>\<open>collectCustomLoaderSync\<close> queues for a pointer with a loader.\<close>

definition collectCustomLoaderSync ::
  "(string \<Rightarrow> 's custom_loader option) \<Rightarrow> ('s \<Rightarrow> error + definition_node list)
     \<Rightarrow> 's loader_pointer \<Rightarrow> string \<Rightarrow> 's collector \<Rightarrow> error + 's collector" where
  "collectCustomLoaderSync getCustomLoaderByPathSync printAndParse loaderPointer pointer st =
     bindE (useCustomLoaderSync getCustomLoaderByPathSync loaderPointer) (\<lambda>loader.
       bindE (loader pointer) (\<lambda>result.
         case result of
           None \<Rightarrow> Inr st
         | Some r \<Rightarrow> addResultOfCustomLoader printAndParse pointer r st))"

text \<open>
  A loader of the fallback chain may lack its synchronous methods; \<^verbatim>\<open>loadSync\<close> returns a
  source, a falsy value or throws.
\<close>

record 's Loader =
  canLoadSync :: "(string \<Rightarrow> error + bool) option"
  loadSync :: "(string \<Rightarrow> error + 's Source option) option"

fun loadFromLoaders :: "'s Loader list \<Rightarrow> string \<Rightarrow> error + 's Source option" where
  "loadFromLoaders [] pointer = Inr None"
| "loadFromLoaders (loader # loaders) pointer =
     (case (canLoadSync loader, loadSync loader) of
        (Some can, Some load) \<Rightarrow>
          bindE (can pointer) (\<lambda>canLoad.
            if canLoad then load pointer else loadFromLoaders loaders pointer)
      | _ \<Rightarrow> loadFromLoaders loaders pointer)"

text \<open>
  \<^verbatim>\<open>useCache\<close>: \<^verbatim>\<open>pointer in options.cache\<close> holds for a key of the cache and for a property
  that the cache inherits. With \<^verbatim>\<open>Object.prototype\<close> as the prototype these are the names
  of \<open>objectPrototypeNames\<close>; after the prototype was replaced by a source they are the
  properties of that source as well, which the model does not list. The pointer options
  are taken to carry no \<^verbatim>\<open>cache\<close> and no \<^verbatim>\<open>loaders\<close> of their own.
\<close>

definition useCache :: "string \<Rightarrow> 's collector \<Rightarrow> error + 's Source option" where
  "useCache pointer st =
     (case cache st pointer of
        Some source \<Rightarrow> Inr (Some source)
      | None \<Rightarrow>
          if pointer \<in> set objectPrototypeNames \<or> cachePrototype st \<noteq> None
          then Inl (PrototypeProperty pointer)
          else Inr None)"

definition loadFileSync ::
  "string \<Rightarrow> 's collector \<Rightarrow> 's Loader list \<Rightarrow> error + 's Source option" where
  "loadFileSync pointer st loaders =
     bindE (useCache pointer st) (\<lambda>cached.
       case cached of
         Some source \<Rightarrow> Inr (Some source)
       | None \<Rightarrow> loadFromLoaders loaders pointer)"

text \<open>The task that \<^verbatim>\<open>collectFallbackSync\<close> queues.\<close>

definition collectFallbackSync ::
  "'s Loader list \<Rightarrow> string \<Rightarrow> 's collector \<Rightarrow> error + 's collector" where
  "collectFallbackSync loaders pointer st =
     bindE (loadFileSync pointer st loaders) (\<lambda>source.
       case source of
         None \<Rightarrow> Inr st
       | Some s \<Rightarrow> Inr (addSource pointer s False st))"

subsection \<open>The result of loading\<close>

definition unableToFind :: "string list \<Rightarrow> string" where
  "unableToFind pointerList =
     [CHR 0x0A] @ ''      Unable to find any GraphQL type definitions for the following pointers: ''
     @ [CHR 0x0A] @ ''        ''
     @ joinWith '',''
         (map (\<lambda>p. [CHR 0x0A] @ ''          - '' @ p @ [CHR 0x0A] @ ''          '') pointerList)"

text \<open>
  \<open>pointerList\<close> is \<^verbatim>\<open>Object.keys(pointerOptionMap)\<close>, \<open>sortOption\<close> is \<^verbatim>\<open>options.sort\<close> and \<open>sortByLocation\<close> is
  \<^verbatim>\<open>validSources.sort\<close> with \<^verbatim>\<open>compareStrings\<close> of another package on the locations.
\<close>

definition prepareResult ::
  "bool \<Rightarrow> ('s Source list \<Rightarrow> 's Source list) \<Rightarrow> string list \<Rightarrow> 's Source list
     \<Rightarrow> error + 's Source list" where
  "prepareResult sortOption sortByLocation pointerList validSources =
     (if length pointerList > 0 \<and> length validSources = 0
      then Inl (Error (unableToFind pointerList))
      else Inr (if sortOption then sortByLocation validSources else validSources))"

lemma joinWith_lists:
  assumes "x \<in> set xs"
  shows "\<exists>a b. joinWith sep xs = a @ x @ b"
  using assms
proof (induction sep xs rule: joinWith.induct)
  case (1 sep)
  then show ?case by simp
next
  case (2 sep y)
  then have "joinWith sep [y] = [] @ x @ []" by simp
  then show ?case by blast
next
  case (3 sep y z zs)
  show ?case
  proof (cases "x = y")
    case True
    then have "joinWith sep (y # z # zs) = [] @ x @ (sep @ joinWith sep (z # zs))" by simp
    then show ?thesis by blast
  next
    case False
    with 3 obtain a b where "joinWith sep (z # zs) = a @ x @ b" by auto
    then have "joinWith sep (y # z # zs) = (y @ sep @ a) @ x @ b" by simp
    then show ?thesis by blast
  qed
qed

lemma unableToFind_lists:
  assumes "p \<in> set pointerList"
  shows "\<exists>a b. unableToFind pointerList =
           a @ [CHR 0x0A] @ ''          - '' @ p @ [CHR 0x0A] @ ''          '' @ b"
proof -
  let ?f = "\<lambda>p. [CHR 0x0A] @ ''          - '' @ p @ [CHR 0x0A] @ ''          ''"
  have "?f p \<in> set (map ?f pointerList)" using assms unfolding set_map by (rule imageI)
  from joinWith_lists[OF this, of "'',''"] obtain a b where
    j: "joinWith '','' (map ?f pointerList) = a @ ?f p @ b" by blast
  let ?pre = "[CHR 0x0A] @ ''      Unable to find any GraphQL type definitions for the following pointers: ''
     @ [CHR 0x0A] @ ''        ''"
  have "unableToFind pointerList =
      (?pre @ a) @ [CHR 0x0A] @ ''          - '' @ p @ [CHR 0x0A] @ ''          '' @ b"
    unfolding unableToFind_def j by simp
  then show ?thesis by blast
qed

section \<open>Resolving imports\<close>

subsection \<open>Nodes as objects\<close>

text \<open>
  The import processing changes the \<^verbatim>\<open>fields\<close> of definition nodes in place, and the
  arrays \<^verbatim>\<open>allDefinitions\<close> and \<^verbatim>\<open>typeDefinitions\<close> hold the same node objects. So the nodes
  live in a heap, a list of nodes, and an array of definitions is a list of addresses, the
  indices into the heap. The state of one resolution is the heap, the two accumulators
  (one array per visited file) and the map \<^verbatim>\<open>options.processedFiles\<close>.
\<close>

record resolution =
  heap :: "definition_node list"
  allDefinitions_acc :: "nat list list"
  typeDefinitions_acc :: "nat list list"
  processedFiles :: "string \<rightharpoonup> RawModule list"

text \<open>\<^verbatim>\<open>'fields' in d\<close>\<close>

fun hasFields :: "definition_node \<Rightarrow> bool" where
  "hasFields (ObjectTypeDefinition n is ds fs) = True"
| "hasFields (InterfaceTypeDefinition n ds fs) = True"
| "hasFields (InputObjectTypeDefinition n ds fs) = True"
| "hasFields d = False"

fun isObjectTypeDefinition :: "definition_node \<Rightarrow> bool" where
  "isObjectTypeDefinition (ObjectTypeDefinition n is ds fs) = True"
| "isObjectTypeDefinition d = False"

subsection \<open>\<^verbatim>\<open>filterImportedDefinitions\<close>\<close>

text \<open>
  \<^verbatim>\<open>d.fields = d.fields.filter(f => fields.includes(f.name.value) || fields.includes('*'))\<close>
  and, where \<^verbatim>\<open>sort\<close> is set, \<^verbatim>\<open>d.fields.sort(compareNodes)\<close>. \<^verbatim>\<open>compareNodes\<close> is of
  another package: the two sorts are \<open>sortFields\<close> and \<open>sortInputValues\<close>.
\<close>

fun restrictFields ::
  "bool \<Rightarrow> (field_def list \<Rightarrow> field_def list) \<Rightarrow> (input_value list \<Rightarrow> input_value list)
     \<Rightarrow> string list \<Rightarrow> definition_node \<Rightarrow> definition_node" where
  "restrictFields sortOption sortFields sortInputValues fieldNames (ObjectTypeDefinition n is ds fs) =
     ObjectTypeDefinition n is ds
       ((if sortOption then sortFields else id)
          (filter (\<lambda>f. fd_name f \<in> set fieldNames \<or> ''*'' \<in> set fieldNames) fs))"
| "restrictFields sortOption sortFields sortInputValues fieldNames (InterfaceTypeDefinition n ds fs) =
     InterfaceTypeDefinition n ds
       ((if sortOption then sortFields else id)
          (filter (\<lambda>f. fd_name f \<in> set fieldNames \<or> ''*'' \<in> set fieldNames) fs))"
| "restrictFields sortOption sortFields sortInputValues fieldNames (InputObjectTypeDefinition n ds fs) =
     InputObjectTypeDefinition n ds
       ((if sortOption then sortInputValues else id)
          (filter (\<lambda>f. iv_name f \<in> set fieldNames \<or> ''*'' \<in> set fieldNames) fs))"
| "restrictFields sortOption sortFields sortInputValues fieldNames d = d"

text \<open>\<^verbatim>\<open>i.split('.')[0]\<close> and \<^verbatim>\<open>i.split('.')[1]\<close>\<close>

definition rootTypeOf :: "string \<Rightarrow> string" where
  "rootTypeOf i = hd (split (CHR ''.'') i)"

definition fieldOf :: "string \<Rightarrow> string" where
  "fieldOf i = split (CHR ''.'') i ! 1"

text \<open>\<^verbatim>\<open>groupedFieldImports[rootType].map(x => x.split('.')[1])\<close>\<close>

definition fieldsOfImport :: "string list \<Rightarrow> string \<Rightarrow> string list" where
  "fieldsOfImport fieldImports rootType =
     map fieldOf (filter (\<lambda>x. rootTypeOf x = rootType) fieldImports)"

text \<open>The body of the loop over the keys of \<^verbatim>\<open>groupedFieldImports\<close>.\<close>

definition importFields ::
  "bool \<Rightarrow> (field_def list \<Rightarrow> field_def list) \<Rightarrow> (input_value list \<Rightarrow> input_value list)
     \<Rightarrow> nat list \<Rightarrow> string list \<Rightarrow> string \<Rightarrow> definition_node list \<Rightarrow> definition_node list" where
  "importFields sortOption sortFields sortInputValues filteredDefinitions fieldImports rootType h =
     (let fieldNames = fieldsOfImport fieldImports rootType in
      case find (\<lambda>r. nameOf (h ! r) = Some rootType) filteredDefinitions of
        None \<Rightarrow> h
      | Some objectTypeDefinition \<Rightarrow>
          if hasFields (h ! objectTypeDefinition) \<and> ''*'' \<notin> set fieldNames
          then h[objectTypeDefinition :=
                   restrictFields sortOption sortFields sortInputValues fieldNames
                     (h ! objectTypeDefinition)]
          else h)"

text \<open>
  In the wildcard branch \<^verbatim>\<open>previousTypeDefinitions[typeDef.name.value]\<close> reads a plain
  object: it is truthy for the name of an earlier definition and for the name of an
  inherited property.
  The keys of \<^verbatim>\<open>groupBy(fieldImports, x => x.split('.')[0])\<close> are visited in the order of
  their first token (keys that are array indices would come first; the steps of two keys
  change two nodes, so the order makes no difference). The result is the filtered array and
  the heap.
\<close>

definition filterImportedDefinitions ::
  "bool \<Rightarrow> (field_def list \<Rightarrow> field_def list) \<Rightarrow> (input_value list \<Rightarrow> input_value list)
     \<Rightarrow> string list \<Rightarrow> nat list \<Rightarrow> nat list list \<Rightarrow> definition_node list
     \<Rightarrow> nat list \<times> definition_node list" where
  "filterImportedDefinitions sortOption sortFields sortInputValues imports typeDefinitions
       allDefinitions h =
     (if ''*'' \<in> set imports then
        if length imports = 1 \<and> imports ! 0 = ''*'' \<and> length allDefinitions > 1 then
          (let previousTypeDefinitions =
                 keyBy (filter (\<lambda>d. nameOf d \<noteq> None)
                          (map ((!) h) (concat (take (length allDefinitions - 1) allDefinitions))))
                   nameOf
           in (filter (\<lambda>r. isObjectTypeDefinition (h ! r)
                            \<and> (previousTypeDefinitions (nameOf (h ! r)) \<noteq> None
                               \<or> defName (h ! r) \<in> set objectPrototypeNames))
                 typeDefinitions, h))
        else (typeDefinitions, h)
      else
        (let importedTypes = map rootTypeOf imports;
             result = filter (\<lambda>r. case nameOf (h ! r) of None \<Rightarrow> False
                                    | Some n \<Rightarrow> n \<in> set importedTypes) typeDefinitions;
             fieldImports = filter (\<lambda>i. length (split (CHR ''.'') i) > 1) imports;
             rootTypes = uniqBy (map rootTypeOf fieldImports) id
         in (result,
             fold (importFields sortOption sortFields sortInputValues typeDefinitions fieldImports)
               rootTypes h)))"

subsection \<open>\<^verbatim>\<open>preapreRawModules\<close>\<close>

text \<open>
  The nodes of the source's document are the objects at the addresses that follow the
  heap (a loader parses the file into new nodes); the array of these addresses is pushed
  onto \<^verbatim>\<open>allDefinitions\<close> before the filter runs. A source without a document or without
  \<^verbatim>\<open>rawSDL\<close> is a property read on \<^verbatim>\<open>undefined\<close>.
\<close>

definition preapreRawModules ::
  "bool \<Rightarrow> (field_def list \<Rightarrow> field_def list) \<Rightarrow> (input_value list \<Rightarrow> input_value list)
     \<Rightarrow> string list \<Rightarrow> 's Source \<Rightarrow> resolution \<Rightarrow> error + (RawModule list \<times> resolution)" where
  "preapreRawModules sortOption sortFields sortInputValues imports source st =
     (case document source of
        None \<Rightarrow> Inl TypeError
      | Some definitions \<Rightarrow>
          (let addresses = [length (heap st) ..< length (heap st) + length definitions];
               allDefinitions = allDefinitions_acc st @ [addresses];
               (currentTypeDefinitions, h) =
                 filterImportedDefinitions sortOption sortFields sortInputValues imports addresses
                   allDefinitions (heap st @ definitions);
               st' = st\<lparr>heap := h, allDefinitions_acc := allDefinitions,
                        typeDefinitions_acc := typeDefinitions_acc st @ [currentTypeDefinitions]\<rparr>
           in case rawSDL source of
                None \<Rightarrow> Inl TypeError
              | Some sdl \<Rightarrow> bindE (parseSDL sdl) (\<lambda>rawModules. Inr (rawModules, st'))))"

lemma nameOf_restrictFields [simp]:
  "nameOf (restrictFields sortOption sortFields sortInputValues fieldNames d) = nameOf d"
  by (cases d) simp_all

lemma hasFields_restrictFields [simp]:
  "hasFields (restrictFields sortOption sortFields sortInputValues fieldNames d) = hasFields d"
  by (cases d) simp_all

lemma length_importFields [simp]:
  "length (importFields sortOption sortFields sortInputValues refs fieldImports k h) = length h"
  by (simp add: importFields_def Let_def split: option.splits)

lemma nameOf_importFields:
  "nameOf (importFields sortOption sortFields sortInputValues refs fieldImports k h ! j) =
     nameOf (h ! j)"
proof (cases "find (\<lambda>r. nameOf (h ! r) = Some k) refs")
  case None
  then show ?thesis by (simp add: importFields_def)
next
  case (Some r)
  show ?thesis
  proof (cases "r < length h")
    case True
    then show ?thesis using Some by (simp add: importFields_def Let_def nth_list_update)
  next
    case False
    then have "\<And>x. h[r := x] = h" by (simp add: list_update_beyond)
    then show ?thesis using Some by (simp add: importFields_def Let_def)
  qed
qed

lemma hasFields_importFields:
  "hasFields (importFields sortOption sortFields sortInputValues refs fieldImports k h ! j) =
     hasFields (h ! j)"
proof (cases "find (\<lambda>r. nameOf (h ! r) = Some k) refs")
  case None
  then show ?thesis by (simp add: importFields_def)
next
  case (Some r)
  show ?thesis
  proof (cases "r < length h")
    case True
    then show ?thesis using Some by (simp add: importFields_def Let_def nth_list_update)
  next
    case False
    then have "\<And>x. h[r := x] = h" by (simp add: list_update_beyond)
    then show ?thesis using Some by (simp add: importFields_def Let_def)
  qed
qed

lemma importFields_other:
  assumes "nameOf (h ! addr) = Some rootType" and "k \<noteq> rootType"
  shows "importFields sortOption sortFields sortInputValues refs fieldImports k h ! addr = h ! addr"
proof (cases "find (\<lambda>r. nameOf (h ! r) = Some k) refs")
  case None
  then show ?thesis by (simp add: importFields_def)
next
  case (Some r)
  then have "nameOf (h ! r) = Some k" by (auto simp: find_Some_iff)
  with assms have "r \<noteq> addr" by auto
  then show ?thesis using Some by (simp add: importFields_def Let_def)
qed

lemma importFields_root:
  assumes "find (\<lambda>r. nameOf (h ! r) = Some rootType) refs = Some addr" and "addr < length h"
    and "hasFields (h ! addr)" and "''*'' \<notin> set (fieldsOfImport fieldImports rootType)"
  shows "importFields sortOption sortFields sortInputValues refs fieldImports rootType h ! addr =
     restrictFields sortOption sortFields sortInputValues (fieldsOfImport fieldImports rootType)
       (h ! addr)"
  using assms by (simp add: importFields_def Let_def)

lemma fold_importFields:
  assumes "distinct ks"
    and "find (\<lambda>r. nameOf (h ! r) = Some rootType) refs = Some addr" and "addr < length h"
    and "hasFields (h ! addr)" and "''*'' \<notin> set (fieldsOfImport fieldImports rootType)"
  shows "fold (importFields sortOption sortFields sortInputValues refs fieldImports) ks h ! addr =
     (if rootType \<in> set ks
      then restrictFields sortOption sortFields sortInputValues
             (fieldsOfImport fieldImports rootType) (h ! addr)
      else h ! addr)"
  using assms
proof (induction ks arbitrary: h)
  case Nil
  then show ?case by simp
next
  case (Cons k ks)
  let ?step = "importFields sortOption sortFields sortInputValues refs fieldImports"
  let ?h = "?step k h"
  have names: "(\<lambda>r. nameOf (?h ! r) = Some rootType) = (\<lambda>r. nameOf (h ! r) = Some rootType)"
    by (simp add: nameOf_importFields)
  have found: "find (\<lambda>r. nameOf (?h ! r) = Some rootType) refs = Some addr"
    unfolding names by (rule Cons.prems(2))
  have len: "addr < length ?h" using Cons.prems(3) by simp
  have hf: "hasFields (?h ! addr)" using Cons.prems(4) by (simp add: hasFields_importFields)
  have IH: "fold ?step ks ?h ! addr =
     (if rootType \<in> set ks
      then restrictFields sortOption sortFields sortInputValues
             (fieldsOfImport fieldImports rootType) (?h ! addr)
      else ?h ! addr)"
    using Cons.IH[OF _ found len hf Cons.prems(5)] Cons.prems(1) by simp
  have name0: "nameOf (h ! addr) = Some rootType" using Cons.prems(2) by (auto simp: find_Some_iff)
  show ?case
  proof (cases "k = rootType")
    case True
    then have "rootType \<notin> set ks" using Cons.prems(1) by simp
    moreover have "?h ! addr = restrictFields sortOption sortFields sortInputValues
        (fieldsOfImport fieldImports rootType) (h ! addr)"
      using importFields_root[OF Cons.prems(2,3,4,5)] True by simp
    ultimately show ?thesis using IH True by simp
  next
    case False
    then have "?h ! addr = h ! addr" using importFields_other[OF name0] by simp
    then show ?thesis using IH False by simp
  qed
qed

lemma find_mapped: "find P (map f xs) = map_option f (find (\<lambda>x. P (f x)) xs)"
  by (induction xs) auto

lemma find_addresses:
  assumes "find P definitions = Some d"
  shows "\<exists>r. find (\<lambda>r. P ((h @ definitions) ! r)) [length h ..< length h + length definitions] = Some r
           \<and> r < length h + length definitions \<and> length h \<le> r \<and> (h @ definitions) ! r = d"
proof -
  let ?A = "[length h ..< length h + length definitions]"
  have m: "map ((!) (h @ definitions)) ?A = definitions"
    by (rule nth_equalityI) (simp_all add: nth_append)
  have "find P (map ((!) (h @ definitions)) ?A) = Some d" using assms m by simp
  then obtain r where r: "find (\<lambda>r. P ((h @ definitions) ! r)) ?A = Some r"
    "(h @ definitions) ! r = d"
    unfolding find_mapped by auto
  then have "r \<in> set ?A" unfolding find_Some_iff by (metis nth_mem)
  then show ?thesis using r by auto
qed

lemma uniqBy_id_set: "distinct (uniqBy xs id)" "set (uniqBy xs id) = set xs"
  using distinct_uniqBy[of id xs] image_uniqBy[of id xs] by simp_all

section \<open>The claims about pool completion\<close>

lemmas pool_eval =
  completeDefinitionPool_def keyBy_def uniqBy_def defName_def bindE_def collectField_def
  collectInputValue_def collectNode_def collectNodeWith_def collectType_def
  collectInterface_def inPool_def builtinTypes_def builtinDirectives_def
  objectPrototypeNames_def missing_def


text \<open>
  C6. On every iteration the lookup map is rebuilt from \<^verbatim>\<open>allDefinitions\<close> as the array
  stands when the iteration begins: the array is reversed and keyed with the last entry
  winning, so each name maps to the first definition of that name in the array as it stood
  at the start of the iteration. The equation for one iteration of the loop is stated with
  that map.
\<close>

theorem lookup_map_first_in_current_order:
  "keyBy (rev allDefinitions) defName n = find (\<lambda>d. defName d = n) allDefinitions \<and>
   completeLoop stack allDefinitions definitionPool (newDefinition # rest) visitedDefinitions =
     (if defName newDefinition \<in> visitedDefinitions then
        completeLoop stack (rev allDefinitions) definitionPool rest visitedDefinitions
      else
        (case collectNewTypeDefinitions stack (rev allDefinitions) definitionPool newDefinition
                (\<lambda>n. find (\<lambda>d. defName d = n) allDefinitions) of
           Inl e \<Rightarrow> Inl e
         | Inr collectedTypedDefinitions \<Rightarrow>
             completeLoop stack (rev allDefinitions) (definitionPool @ collectedTypedDefinitions)
               (rest @ collectedTypedDefinitions)
               (insert (defName newDefinition) visitedDefinitions)))"
proof -
  have m: "keyBy (rev allDefinitions) defName = (\<lambda>n. find (\<lambda>d. defName d = n) allDefinitions)"
    by (rule ext) (simp add: keyBy_find)
  show ?thesis by (simp add: m)
qed

theorem lookup_map_first_in_current_order_witness:
  "keyBy (rev [ScalarTypeDefinition ''X'' [], EnumTypeDefinition ''X'' [] []]) defName ''X''
     = Some (ScalarTypeDefinition ''X'' [])"
  using lookup_map_first_in_current_order
    [of "[ScalarTypeDefinition ''X'' [], EnumTypeDefinition ''X'' [] []]" "''X''" 0 "[]"
        "ScalarTypeDefinition ''X'' []" "[]" "set objectPrototypeNames"]
  by (simp add: defName_def)

text \<open>
  C6, as stated, fails: with two definitions named \<^verbatim>\<open>X\<close> the map of the first iteration
  holds the earlier one, which the completion then adds to the pool, and after a loop of
  one iteration \<^verbatim>\<open>allDefinitions\<close> is reversed.
\<close>

theorem lookup_map_latest_counterexample:
  "keyBy (rev [ScalarTypeDefinition ''X'' [], EnumTypeDefinition ''X'' [] []]) defName ''X''
     \<noteq> Some (EnumTypeDefinition ''X'' [] []) \<and>
   completeDefinitionPool 0 [ScalarTypeDefinition ''X'' [], EnumTypeDefinition ''X'' [] []]
     [ObjectTypeDefinition ''Q'' [] [] [FieldDefinition ''x'' [] (NamedType ''X'') []]]
     [ObjectTypeDefinition ''Q'' [] [] [FieldDefinition ''x'' [] (NamedType ''X'') []]]
     = Inr [ObjectTypeDefinition ''Q'' [] [] [FieldDefinition ''x'' [] (NamedType ''X'') []],
            ScalarTypeDefinition ''X'' []] \<and>
   completeLoop 0 [ScalarTypeDefinition ''X'' [], EnumTypeDefinition ''X'' [] []] []
     [ScalarTypeDefinition ''X'' []] (set objectPrototypeNames)
     = Inr ([EnumTypeDefinition ''X'' [] [], ScalarTypeDefinition ''X'' []], [])"
  by (simp add: pool_eval)


text \<open>
  C1. The pool that \<^verbatim>\<open>completeDefinitionPool\<close> returns is not always closed, also
  when it is called as \<^verbatim>\<open>process$1\<close> calls it (the pool is the worklist followed by the
  worklist). The table \<^verbatim>\<open>visitedDefinitions\<close> is a plain object: for an object type named
  \<^verbatim>\<open>constructor\<close> the test \<^verbatim>\<open>visitedDefinitions[defName]\<close> finds the inherited property,
  the loop skips the type as if it had been processed, and the type \<^verbatim>\<open>Foo\<close> of its field
  is not in the returned pool although \<^verbatim>\<open>allDefinitions\<close> defines it. And a type named
  \<^verbatim>\<open>schema\<close> shares its key in the table with the schema definition: once the schema
  definition is processed the loop skips the type, and the type \<^verbatim>\<open>Foo\<close> of its field is
  not in the returned pool. The two runs are those of a root file that imports the type
  \<^verbatim>\<open>constructor\<close> (the type \<^verbatim>\<open>schema\<close>) from a second file, which also defines \<^verbatim>\<open>Foo\<close>.
\<close>

theorem completeDefinitionPool_closure_counterexample:
  "completeDefinitionPool 0
     [ObjectTypeDefinition ''Query'' [] [] [FieldDefinition ''c'' [] (NamedType ''constructor'') []],
      ObjectTypeDefinition ''constructor'' [] [] [FieldDefinition ''f'' [] (NamedType ''Foo'') []],
      ScalarTypeDefinition ''Foo'' []]
     ([ObjectTypeDefinition ''Query'' [] [] [FieldDefinition ''c'' [] (NamedType ''constructor'') []],
       ObjectTypeDefinition ''constructor'' [] [] [FieldDefinition ''f'' [] (NamedType ''Foo'') []]]
      @ [ObjectTypeDefinition ''Query'' [] [] [FieldDefinition ''c'' [] (NamedType ''constructor'') []],
         ObjectTypeDefinition ''constructor'' [] [] [FieldDefinition ''f'' [] (NamedType ''Foo'') []]])
     [ObjectTypeDefinition ''Query'' [] [] [FieldDefinition ''c'' [] (NamedType ''constructor'') []],
      ObjectTypeDefinition ''constructor'' [] [] [FieldDefinition ''f'' [] (NamedType ''Foo'') []]]
   = Inr [ObjectTypeDefinition ''Query'' [] [] [FieldDefinition ''c'' [] (NamedType ''constructor'') []],
          ObjectTypeDefinition ''constructor'' [] [] [FieldDefinition ''f'' [] (NamedType ''Foo'') []]] \<and>
   TypeRef ''Foo'' \<in> set (references
     (ObjectTypeDefinition ''constructor'' [] [] [FieldDefinition ''f'' [] (NamedType ''Foo'') []])) \<and>
   \<not> inPool
       [ObjectTypeDefinition ''Query'' [] [] [FieldDefinition ''c'' [] (NamedType ''constructor'') []],
        ObjectTypeDefinition ''constructor'' [] [] [FieldDefinition ''f'' [] (NamedType ''Foo'') []]]
       ''Foo'' \<and>
   ''Foo'' \<notin> set builtinTypes \<and>
   completeDefinitionPool 0
     [SchemaDefinition [] [OperationTypeDefinition ''query'' ''Query''],
      ObjectTypeDefinition ''Query'' [] [] [FieldDefinition ''s'' [] (NamedType ''schema'') []],
      ObjectTypeDefinition ''schema'' [] [] [FieldDefinition ''f'' [] (NamedType ''Foo'') []],
      ScalarTypeDefinition ''Foo'' []]
     ([SchemaDefinition [] [OperationTypeDefinition ''query'' ''Query''],
       ObjectTypeDefinition ''Query'' [] [] [FieldDefinition ''s'' [] (NamedType ''schema'') []],
       ObjectTypeDefinition ''schema'' [] [] [FieldDefinition ''f'' [] (NamedType ''Foo'') []]]
      @ [SchemaDefinition [] [OperationTypeDefinition ''query'' ''Query''],
         ObjectTypeDefinition ''Query'' [] [] [FieldDefinition ''s'' [] (NamedType ''schema'') []],
         ObjectTypeDefinition ''schema'' [] [] [FieldDefinition ''f'' [] (NamedType ''Foo'') []]])
     [SchemaDefinition [] [OperationTypeDefinition ''query'' ''Query''],
      ObjectTypeDefinition ''Query'' [] [] [FieldDefinition ''s'' [] (NamedType ''schema'') []],
      ObjectTypeDefinition ''schema'' [] [] [FieldDefinition ''f'' [] (NamedType ''Foo'') []]]
   = Inr [SchemaDefinition [] [OperationTypeDefinition ''query'' ''Query''],
          ObjectTypeDefinition ''Query'' [] [] [FieldDefinition ''s'' [] (NamedType ''schema'') []],
          ObjectTypeDefinition ''schema'' [] [] [FieldDefinition ''f'' [] (NamedType ''Foo'') []]] \<and>
   TypeRef ''Foo'' \<in> set (references
     (ObjectTypeDefinition ''schema'' [] [] [FieldDefinition ''f'' [] (NamedType ''Foo'') []])) \<and>
   \<not> inPool
       [SchemaDefinition [] [OperationTypeDefinition ''query'' ''Query''],
        ObjectTypeDefinition ''Query'' [] [] [FieldDefinition ''s'' [] (NamedType ''schema'') []],
        ObjectTypeDefinition ''schema'' [] [] [FieldDefinition ''f'' [] (NamedType ''Foo'') []]]
       ''Foo''"
  by (simp add: pool_eval fieldRefs_def directiveRefs_def)

text \<open>
  C9. When \<^verbatim>\<open>completeDefinitionPool\<close> is called as \<^verbatim>\<open>process$1\<close> calls it (the pool
  is the worklist followed by definitions that are also in the worklist), no definition of
  \<^verbatim>\<open>allDefinitions\<close> is named \<^verbatim>\<open>schema\<close> and the call returns the pool \<open>P\<close>, then a
  second call with \<open>P\<close> as the pool, \<open>P\<close> as the worklist and the same definitions as
  \<^verbatim>\<open>allDefinitions\<close>, in any order, returns \<open>P\<close>.
\<close>

theorem completeDefinitionPool_idempotent:
  assumes ret: "completeDefinitionPool stack allDefinitions (newTypeDefinitions @ extra)
                  newTypeDefinitions = Inr P"
    and extra: "set extra \<subseteq> set newTypeDefinitions"
    and noSchema: "Some ''schema'' \<notin> nameOf ` set allDefinitions"
    and same: "set allDefinitions' = set allDefinitions"
  shows "completeDefinitionPool stack' allDefinitions' P P = Inr P"
proof -
  from ret obtain A' pool' where
    run: "completeLoop stack allDefinitions (newTypeDefinitions @ extra) newTypeDefinitions
            (set objectPrototypeNames) = Inr (A', pool')"
    and P: "P = uniqBy pool' nameOf"
    unfolding completeDefinitionPool_Inr by blast
  have cl: "\<forall>d\<in>set P. defName d \<notin> set objectPrototypeNames \<longrightarrow>
              find (\<lambda>x. defName x = defName d) P = Some d \<longrightarrow> closedIn allDefinitions pool' d"
    using processed_pool_closed[OF run extra P] by blast
  have names: "nameOf ` set pool' = nameOf ` set P" unfolding P by (simp add: image_uniqBy)
  have dist: "distinct (map nameOf P)" unfolding P by (rule distinct_uniqBy)
  show ?thesis using cl names noSchema dist same by (rule second_pass_returns_same)
qed

theorem completeDefinitionPool_idempotent_witness:
  "completeDefinitionPool 0
     [ObjectTypeDefinition ''B'' [''Node''] [] [FieldDefinition ''id'' [] (NamedType ''ID'') []],
      InterfaceTypeDefinition ''Node'' [] [FieldDefinition ''id'' [] (NamedType ''ID'') []]]
     ([ObjectTypeDefinition ''B'' [''Node''] [] [FieldDefinition ''id'' [] (NamedType ''ID'') []]] @ [])
     [ObjectTypeDefinition ''B'' [''Node''] [] [FieldDefinition ''id'' [] (NamedType ''ID'') []]]
   = Inr [ObjectTypeDefinition ''B'' [''Node''] [] [FieldDefinition ''id'' [] (NamedType ''ID'') []],
          InterfaceTypeDefinition ''Node'' [] [FieldDefinition ''id'' [] (NamedType ''ID'') []]] \<and>
   completeDefinitionPool 0
     [InterfaceTypeDefinition ''Node'' [] [FieldDefinition ''id'' [] (NamedType ''ID'') []],
      ObjectTypeDefinition ''B'' [''Node''] [] [FieldDefinition ''id'' [] (NamedType ''ID'') []]]
     [ObjectTypeDefinition ''B'' [''Node''] [] [FieldDefinition ''id'' [] (NamedType ''ID'') []],
      InterfaceTypeDefinition ''Node'' [] [FieldDefinition ''id'' [] (NamedType ''ID'') []]]
     [ObjectTypeDefinition ''B'' [''Node''] [] [FieldDefinition ''id'' [] (NamedType ''ID'') []],
      InterfaceTypeDefinition ''Node'' [] [FieldDefinition ''id'' [] (NamedType ''ID'') []]]
   = Inr [ObjectTypeDefinition ''B'' [''Node''] [] [FieldDefinition ''id'' [] (NamedType ''ID'') []],
          InterfaceTypeDefinition ''Node'' [] [FieldDefinition ''id'' [] (NamedType ''ID'') []]]"
proof -
  let ?B = "ObjectTypeDefinition ''B'' [''Node''] [] [FieldDefinition ''id'' [] (NamedType ''ID'') []]"
  let ?N = "InterfaceTypeDefinition ''Node'' [] [FieldDefinition ''id'' [] (NamedType ''ID'') []]"
  have run: "completeDefinitionPool 0 [?B, ?N] ([?B] @ []) [?B] = Inr [?B, ?N]"
    by (simp add: pool_eval)
  have "completeDefinitionPool 0 [?N, ?B] [?B, ?N] [?B, ?N] = Inr [?B, ?N]"
    by (rule completeDefinitionPool_idempotent[OF run]) auto
  with run show ?thesis by simp
qed

text \<open>
  C9, as stated, fails. A pool returned for an empty worklist holds an interface that was
  never processed: the second call pulls in the object type that implements it. And where
  a type is named \<^verbatim>\<open>schema\<close>, the lookup of that name finds the schema definition or the
  type, depending on how often the array was reversed: the first call (four iterations)
  returns a pool without the type, the second call adds it.
\<close>

theorem completeDefinitionPool_idempotent_counterexample:
  "completeDefinitionPool 0
     [InterfaceTypeDefinition ''I'' [] [], ObjectTypeDefinition ''X'' [''I''] [] []]
     [InterfaceTypeDefinition ''I'' [] []] []
   = Inr [InterfaceTypeDefinition ''I'' [] []] \<and>
   completeDefinitionPool 0
     [InterfaceTypeDefinition ''I'' [] [], ObjectTypeDefinition ''X'' [''I''] [] []]
     [InterfaceTypeDefinition ''I'' [] []] [InterfaceTypeDefinition ''I'' [] []]
   = Inr [InterfaceTypeDefinition ''I'' [] [], ObjectTypeDefinition ''X'' [''I''] [] []] \<and>
   completeLoop 0
     [SchemaDefinition [] [OperationTypeDefinition ''query'' ''A''],
      ObjectTypeDefinition ''schema'' [] [] []]
     [ScalarTypeDefinition ''B'' [], ScalarTypeDefinition ''B'' [],
      ObjectTypeDefinition ''A'' [] [] [FieldDefinition ''s'' [] (NamedType ''schema'') []]]
     [ScalarTypeDefinition ''B'' [], ScalarTypeDefinition ''B'' [],
      ObjectTypeDefinition ''A'' [] [] [FieldDefinition ''s'' [] (NamedType ''schema'') []]]
     (set objectPrototypeNames)
   = Inr ([SchemaDefinition [] [OperationTypeDefinition ''query'' ''A''],
           ObjectTypeDefinition ''schema'' [] [] []],
          [ScalarTypeDefinition ''B'' [], ScalarTypeDefinition ''B'' [],
           ObjectTypeDefinition ''A'' [] [] [FieldDefinition ''s'' [] (NamedType ''schema'') []],
           SchemaDefinition [] [OperationTypeDefinition ''query'' ''A'']]) \<and>
   completeDefinitionPool 0
     [SchemaDefinition [] [OperationTypeDefinition ''query'' ''A''],
      ObjectTypeDefinition ''schema'' [] [] []]
     [ScalarTypeDefinition ''B'' [], ScalarTypeDefinition ''B'' [],
      ObjectTypeDefinition ''A'' [] [] [FieldDefinition ''s'' [] (NamedType ''schema'') []]]
     [ScalarTypeDefinition ''B'' [], ScalarTypeDefinition ''B'' [],
      ObjectTypeDefinition ''A'' [] [] [FieldDefinition ''s'' [] (NamedType ''schema'') []]]
   = Inr [ScalarTypeDefinition ''B'' [],
          ObjectTypeDefinition ''A'' [] [] [FieldDefinition ''s'' [] (NamedType ''schema'') []],
          SchemaDefinition [] [OperationTypeDefinition ''query'' ''A'']] \<and>
   completeDefinitionPool 0
     [SchemaDefinition [] [OperationTypeDefinition ''query'' ''A''],
      ObjectTypeDefinition ''schema'' [] [] []]
     [ScalarTypeDefinition ''B'' [],
      ObjectTypeDefinition ''A'' [] [] [FieldDefinition ''s'' [] (NamedType ''schema'') []],
      SchemaDefinition [] [OperationTypeDefinition ''query'' ''A'']]
     [ScalarTypeDefinition ''B'' [],
      ObjectTypeDefinition ''A'' [] [] [FieldDefinition ''s'' [] (NamedType ''schema'') []],
      SchemaDefinition [] [OperationTypeDefinition ''query'' ''A'']]
   = Inr [ScalarTypeDefinition ''B'' [],
          ObjectTypeDefinition ''A'' [] [] [FieldDefinition ''s'' [] (NamedType ''schema'') []],
          SchemaDefinition [] [OperationTypeDefinition ''query'' ''A''],
          ObjectTypeDefinition ''schema'' [] [] []]"
  by (simp add: pool_eval)




section \<open>The claims about import lines\<close>

lemmas import_eval = parseSDL_def parseImportLine_def regexMatch_def IMPORT_FROM_REGEX_def
  IMPORT_DEFAULT_REGEX_def Plus_def renderImportLine_def renderDefaultImport_def trim_def
  isWhiteSpace_def isLineTerminator_def startsWith_def importToken_def plainText_def isQuote_def

text \<open>
  C8 (amended). Rendering then parsing returns the import list and the path where the
  import list is not empty, every token is free of commas, quotes and line terminators
  and has no white space at either end, and the path is not empty and free of quotes and
  line terminators. The bare form parses to the wildcard for every such path, empty or not.
\<close>

theorem parseSDL_left_inverse:
  assumes "plainText fromPath"
  shows "parseSDL (renderDefaultImport fromPath) = Inr [\<lparr>imports_of = [''*''], from_of = fromPath\<rparr>]
    \<and> (imports \<noteq> [] \<and> list_all importToken imports \<and> fromPath \<noteq> [] \<longrightarrow>
         parseSDL (renderImportLine imports fromPath) =
           Inr [\<lparr>imports_of = imports, from_of = fromPath\<rparr>])"
proof (intro conjI impI)
  let ?q = "CHR 0x22"
  have nl: "CHR 0x0A \<notin> set fromPath" using assms by (auto simp: plainText_def isLineTerminator_def)
  have "parseSDL (''# import '' @ (?q # fromPath @ [?q])) =
      mapE parseImportLine [''import '' @ (?q # fromPath @ [?q])]"
    using nl by (intro parseSDL_single) (simp_all add: isWhiteSpace_def)
  then show "parseSDL (renderDefaultImport fromPath) =
      Inr [\<lparr>imports_of = [''*''], from_of = fromPath\<rparr>]"
    using parseImportLine_bare[OF assms] by (simp add: renderDefaultImport_def)
next
  let ?J = "joinWith '', '' imports"
  assume a: "imports \<noteq> [] \<and> list_all importToken imports \<and> fromPath \<noteq> []"
  then have tokens: "\<forall>t\<in>set imports. importToken t" by (simp add: list_all_iff)
  have J: "plainText ?J" by (rule plainText_joinWith[OF tokens])
  have nl: "CHR 0x0A \<notin> set (?J @ fromTail fromPath)"
    using J assms by (auto simp: plainText_def isLineTerminator_def fromTail_def)
  have "parseSDL (''# import '' @ (?J @ fromTail fromPath)) =
      mapE parseImportLine [''import '' @ (?J @ fromTail fromPath)]"
    using nl by (intro parseSDL_single) (simp_all add: isWhiteSpace_def fromTail_def)
  moreover have "parseImportLine (''import '' @ ?J @ fromTail fromPath) =
      Inr \<lparr>imports_of = (if ?J = ''*'' then [''*''] else map trim (split (CHR '','') ?J)),
           from_of = fromPath\<rparr>"
    using J assms a joinWith_star[OF tokens] joinWith_hd[OF tokens]
    by (intro parseImportLine_from) blast+
  moreover have "map trim (split (CHR '','') ?J) = imports"
    using split_join[of "imports" "[]"] a tokens by simp
  moreover have "?J = ''*'' \<Longrightarrow> imports = [''*'']"
    using \<open>map trim (split (CHR '','') ?J) = imports\<close> by (simp add: trim_def isWhiteSpace_def)
  moreover have "renderImportLine imports fromPath = ''# import '' @ (?J @ fromTail fromPath)"
    by (simp add: renderImportLine_def fromTail_def)
  ultimately show "parseSDL (renderImportLine imports fromPath) =
      Inr [\<lparr>imports_of = imports, from_of = fromPath\<rparr>]"
    by (simp add: mapE_single)
qed

theorem parseSDL_left_inverse_witness:
  "plainText ''x.graphql''
   \<and> parseSDL (renderDefaultImport ''x.graphql'') =
       Inr [\<lparr>imports_of = [''*''], from_of = ''x.graphql''\<rparr>]
   \<and> [''A'', ''B.c''] \<noteq> [] \<and> list_all importToken [''A'', ''B.c''] \<and> ''x.graphql'' \<noteq> []
   \<and> parseSDL (renderImportLine [''A'', ''B.c''] ''x.graphql'') =
       Inr [\<lparr>imports_of = [''A'', ''B.c''], from_of = ''x.graphql''\<rparr>]"
proof -
  have 1: "plainText ''x.graphql''" by (simp add: plainText_def isQuote_def isLineTerminator_def)
  have 2: "list_all importToken [''A'', ''B.c'']"
    by (simp add: importToken_def plainText_def isQuote_def isLineTerminator_def trim_def
        isWhiteSpace_def)
  from parseSDL_left_inverse[OF 1, of "[''A'', ''B.c'']"] 1 2 show ?thesis by simp
qed

text \<open>
  C8 (as stated) fails on comma-free and quote-free tokens and paths: an empty import
  list comes back as the list of one empty token, a token with a leading space comes back
  without it, and an empty path is an invalid import statement.
\<close>

theorem parseSDL_left_inverse_counterexample:
  "parseSDL (renderImportLine [] ''x.graphql'') =
     Inr [\<lparr>imports_of = [[]], from_of = ''x.graphql''\<rparr>]
   \<and> parseSDL (renderImportLine ['' A''] ''x.graphql'') =
     Inr [\<lparr>imports_of = [''A''], from_of = ''x.graphql''\<rparr>]
   \<and> isl (parseSDL (renderImportLine [''A''] []))"
  by (simp add: import_eval)

section \<open>The claims about loading sources\<close>

text \<open>
  C5. \<^verbatim>\<open>prepareResult\<close>, which \<^verbatim>\<open>loadTypedefs\<close> and \<^verbatim>\<open>loadTypedefsSync\<close> call last with the
  valid sources of the whole call, throws exactly when at least one pointer was requested
  and the call found no valid source at all; the one error then has the message that
  lists every requested pointer, each on a line of its own. In every other case it throws
  nothing, whichever pointers produced no source, and returns the valid sources, sorted by
  location when \<^verbatim>\<open>options.sort\<close> is set.
\<close>

theorem prepareResult_outcome:
  "prepareResult sortOption sortByLocation pointerList validSources =
     (if pointerList \<noteq> [] \<and> validSources = []
      then Inl (Error (unableToFind pointerList))
      else Inr (if sortOption then sortByLocation validSources else validSources)) \<and>
   (\<forall>p\<in>set pointerList. \<exists>a b. unableToFind pointerList =
        a @ [CHR 0x0A] @ ''          - '' @ p @ [CHR 0x0A] @ ''          '' @ b)"
  using unableToFind_lists[of _ pointerList] by (auto simp: prepareResult_def)

theorem prepareResult_outcome_witness:
  "prepareResult True id [''a.graphql'', ''b.graphql''] ([] :: unit Source list) =
     Inl (Error (unableToFind [''a.graphql'', ''b.graphql''])) \<and>
   (\<exists>a b. unableToFind [''a.graphql'', ''b.graphql''] =
      a @ [CHR 0x0A] @ ''          - '' @ ''a.graphql'' @ [CHR 0x0A] @ ''          '' @ b) \<and>
   (\<exists>a b. unableToFind [''a.graphql'', ''b.graphql''] =
      a @ [CHR 0x0A] @ ''          - '' @ ''b.graphql'' @ [CHR 0x0A] @ ''          '' @ b) \<and>
   prepareResult False id [''a.graphql'', ''b.graphql'']
     [\<lparr>location = ''a.graphql'', document = Some [ScalarTypeDefinition ''A'' []],
       rawSDL = None, schema = None :: unit option\<rparr>] =
     Inr [\<lparr>location = ''a.graphql'', document = Some [ScalarTypeDefinition ''A'' []],
           rawSDL = None, schema = None\<rparr>]"
  using prepareResult_outcome[of True id "[''a.graphql'', ''b.graphql'']" "[] :: unit Source list"]
    prepareResult_outcome[of False id "[''a.graphql'', ''b.graphql'']"
      "[\<lparr>location = ''a.graphql'', document = Some [ScalarTypeDefinition ''A'' []],
         rawSDL = None, schema = None :: unit option\<rparr>]"]
  by simp

text \<open>
  C5, as stated, fails: with a loader that can load \<^verbatim>\<open>a.graphql\<close> only, the pointer
  \<^verbatim>\<open>b.graphql\<close> produces no source, and the load of both pointers returns the one source
  without an error.
\<close>

theorem prepareResult_unmatched_counterexample:
  "collectFallbackSync
     [\<lparr>canLoadSync = Some (\<lambda>p. Inr (p = ''a.graphql'')),
       loadSync = Some (\<lambda>p. Inr (Some
         \<lparr>location = p, document = Some [ScalarTypeDefinition ''A'' []],
          rawSDL = None, schema = None :: unit option\<rparr>))\<rparr>]
     ''b.graphql'' \<lparr>sources = [], cache = Map.empty, cachePrototype = None\<rparr>
   = Inr \<lparr>sources = [], cache = Map.empty, cachePrototype = None\<rparr> \<and>
   (case bindE (collectFallbackSync
                  [\<lparr>canLoadSync = Some (\<lambda>p. Inr (p = ''a.graphql'')),
                    loadSync = Some (\<lambda>p. Inr (Some
                      \<lparr>location = p, document = Some [ScalarTypeDefinition ''A'' []],
                       rawSDL = None, schema = None :: unit option\<rparr>))\<rparr>]
                  ''a.graphql'' \<lparr>sources = [], cache = Map.empty, cachePrototype = None\<rparr>)
               (collectFallbackSync
                  [\<lparr>canLoadSync = Some (\<lambda>p. Inr (p = ''a.graphql'')),
                    loadSync = Some (\<lambda>p. Inr (Some
                      \<lparr>location = p, document = Some [ScalarTypeDefinition ''A'' []],
                       rawSDL = None, schema = None\<rparr>))\<rparr>]
                  ''b.graphql'') of
      Inl e \<Rightarrow> Inl e
    | Inr st \<Rightarrow> prepareResult False id [''a.graphql'', ''b.graphql''] (sources st)) =
   Inr [\<lparr>location = ''a.graphql'', document = Some [ScalarTypeDefinition ''A'' []],
         rawSDL = None, schema = None\<rparr>]"
  by (simp add: collectFallbackSync_def loadFileSync_def useCache_def bindE_def addSource_def
      prepareResult_def objectPrototypeNames_def)

text \<open>
  C7. A source that a custom loader produced is written to the cache unless the loader
  returned a schema object: \<^verbatim>\<open>addResultOfCustomLoader\<close> passes \<^verbatim>\<open>noCache: true\<close> in its schema
  branch only. After the task of a custom loader that returns a document, and after a
  result with a \<^verbatim>\<open>document\<close> property, \<^verbatim>\<open>options.cache\<close> holds the source under the pointer;
  after a schema object it holds nothing.
\<close>

theorem custom_loader_cached_counterexample:
  "(case collectCustomLoaderSync (\<lambda>path. None) (\<lambda>s. Inr [])
           (LoaderFunction (\<lambda>p. Inr (Some (DocumentResult [ScalarTypeDefinition ''A'' []]))))
           ''p'' \<lparr>sources = [], cache = Map.empty :: string \<rightharpoonup> unit Source,
                  cachePrototype = None\<rparr> of
      Inl e \<Rightarrow> None
    | Inr st \<Rightarrow> cache st ''p'') =
   Some \<lparr>location = ''p'', document = Some [ScalarTypeDefinition ''A'' []], rawSDL = None,
         schema = None\<rparr> \<and>
   (case collectCustomLoaderSync (\<lambda>path. None) (\<lambda>s. Inr [])
           (LoaderFunction (\<lambda>p. Inr (Some
              (SourceResult None [ScalarTypeDefinition ''A'' []] (Some ''scalar A'') None))))
           ''p'' \<lparr>sources = [], cache = Map.empty :: string \<rightharpoonup> unit Source,
                  cachePrototype = None\<rparr> of
      Inl e \<Rightarrow> None
    | Inr st \<Rightarrow> cache st ''p'') =
   Some \<lparr>location = ''p'', document = Some [ScalarTypeDefinition ''A'' []],
         rawSDL = Some ''scalar A'', schema = None\<rparr> \<and>
   (case collectCustomLoaderSync (\<lambda>path. None) (\<lambda>s. Inr [ScalarTypeDefinition ''A'' []])
           (LoaderFunction (\<lambda>p. Inr (Some (SchemaResult ()))))
           ''p'' \<lparr>sources = [], cache = Map.empty :: string \<rightharpoonup> unit Source,
                  cachePrototype = None\<rparr> of
      Inl e \<Rightarrow> None
    | Inr st \<Rightarrow> cache st ''p'') = None"
  by (simp add: collectCustomLoaderSync_def useCustomLoaderSync_def addResultOfCustomLoader_def
      bindE_def addSource_def)

section \<open>The claims about resolving imports\<close>

text \<open>
  C10 (amended). Where the import list has no bare \<^verbatim>\<open>*\<close> token, a token \<^verbatim>\<open>Type.field\<close> and
  no token \<^verbatim>\<open>Type.*\<close>, and the first definition named \<^verbatim>\<open>Type\<close> in the file has a field list,
  \<^verbatim>\<open>preapreRawModules\<close> leaves that node, at its address in the array it has pushed onto
  \<^verbatim>\<open>allDefinitions\<close>, with the requested fields only.
\<close>

theorem field_import_changes_unfiltered_node:
  assumes "''*'' \<notin> set imports"
    and "token \<in> set imports" and "length (split (CHR ''.'') token) > 1"
    and "rootTypeOf token = rootType"
    and "fieldImports = filter (\<lambda>i. length (split (CHR ''.'') i) > 1) imports"
    and "''*'' \<notin> set (fieldsOfImport fieldImports rootType)"
    and "document source = Some definitions" and "rawSDL source = Some sdl"
    and "parseSDL sdl = Inr rawModules"
    and "find (\<lambda>d. nameOf d = Some rootType) definitions = Some d" and "hasFields d"
  shows "\<exists>st' r.
      preapreRawModules sortOption sortFields sortInputValues imports source st = Inr (rawModules, st')
      \<and> r \<in> set (last (allDefinitions_acc st')) \<and> (heap st @ definitions) ! r = d
      \<and> heap st' ! r =
          restrictFields sortOption sortFields sortInputValues
            (fieldsOfImport fieldImports rootType) d"
proof -
  let ?h = "heap st @ definitions"
  let ?A = "[length (heap st) ..< length (heap st) + length definitions]"
  let ?ks = "uniqBy (map rootTypeOf fieldImports) id"
  let ?h' = "fold (importFields sortOption sortFields sortInputValues ?A fieldImports) ?ks ?h"
  from find_addresses[OF assms(10), of "heap st"] obtain r where
    r: "find (\<lambda>r. nameOf (?h ! r) = Some rootType) ?A = Some r"
    "r < length (heap st) + length definitions" "length (heap st) \<le> r" "?h ! r = d"
    by blast
  have "token \<in> set fieldImports" using assms(2,3,5) by simp
  then have root: "rootType \<in> set ?ks" using assms(4) by (auto simp: uniqBy_id_set(2))
  have "?h' ! r = restrictFields sortOption sortFields sortInputValues
      (fieldsOfImport fieldImports rootType) (?h ! r)"
    using fold_importFields[where ks="?ks" and h="?h" and refs="?A" and addr=r
        and rootType=rootType and fieldImports=fieldImports and sortOption=sortOption
        and sortFields=sortFields and sortInputValues=sortInputValues]
      uniqBy_id_set(1)[of "map rootTypeOf fieldImports"] r(1,2,4) assms(6,11) root
    by simp
  moreover have "filterImportedDefinitions sortOption sortFields sortInputValues imports ?A
      (allDefinitions_acc st @ [?A]) ?h =
    (filter (\<lambda>r. case nameOf (?h ! r) of None \<Rightarrow> False
                  | Some n \<Rightarrow> n \<in> set (map rootTypeOf imports)) ?A, ?h')"
    using assms(1,5) by (simp add: filterImportedDefinitions_def Let_def)
  ultimately have "\<exists>st'.
      preapreRawModules sortOption sortFields sortInputValues imports source st = Inr (rawModules, st')
      \<and> r \<in> set (last (allDefinitions_acc st')) \<and> (heap st @ definitions) ! r = d
      \<and> heap st' ! r =
          restrictFields sortOption sortFields sortInputValues
            (fieldsOfImport fieldImports rootType) d"
    using assms(7,8,9) r(2,3,4)
    by (simp add: preapreRawModules_def Let_def bindE_def)
  then show ?thesis by blast
qed

lemmas resolve_eval = preapreRawModules_def filterImportedDefinitions_def importFields_def
  fieldsOfImport_def rootTypeOf_def fieldOf_def uniqBy_def bindE_def Let_def

theorem field_import_changes_unfiltered_node_witness:
  "''*'' \<notin> set [''Foo.bar'']
   \<and> ''Foo.bar'' \<in> set [''Foo.bar''] \<and> length (split (CHR ''.'') ''Foo.bar'') > 1
   \<and> rootTypeOf ''Foo.bar'' = ''Foo''
   \<and> [''Foo.bar''] = filter (\<lambda>i. length (split (CHR ''.'') i) > 1) [''Foo.bar'']
   \<and> ''*'' \<notin> set (fieldsOfImport [''Foo.bar''] ''Foo'')
   \<and> parseSDL ''type Foo'' = Inr []
   \<and> hasFields (ObjectTypeDefinition ''Foo'' [] []
         [FieldDefinition ''bar'' [] (NamedType ''Int'') [],
          FieldDefinition ''baz'' [] (NamedType ''Int'') []])
   \<and> (\<exists>st' r.
        preapreRawModules False id id [''Foo.bar'']
          \<lparr>location = ''b.graphql'',
           document = Some [ObjectTypeDefinition ''Foo'' [] []
             [FieldDefinition ''bar'' [] (NamedType ''Int'') [],
              FieldDefinition ''baz'' [] (NamedType ''Int'') []]],
           rawSDL = Some ''type Foo'', schema = None :: unit option\<rparr>
          \<lparr>heap = [], allDefinitions_acc = [], typeDefinitions_acc = [],
           processedFiles = Map.empty\<rparr> = Inr ([], st')
        \<and> r \<in> set (last (allDefinitions_acc st'))
        \<and> heap st' ! r =
            ObjectTypeDefinition ''Foo'' [] [] [FieldDefinition ''bar'' [] (NamedType ''Int'') []])"
proof -
  let ?d = "ObjectTypeDefinition ''Foo'' [] []
         [FieldDefinition ''bar'' [] (NamedType ''Int'') [],
          FieldDefinition ''baz'' [] (NamedType ''Int'') []]"
  let ?src = "\<lparr>location = ''b.graphql'', document = Some [?d],
           rawSDL = Some ''type Foo'', schema = None :: unit option\<rparr>"
  have 1: "parseSDL ''type Foo'' = Inr []"
    by (simp add: parseSDL_def trim_def isWhiteSpace_def startsWith_def)
  have 2: "length (split (CHR ''.'') ''Foo.bar'') > 1" "rootTypeOf ''Foo.bar'' = ''Foo''"
    "fieldsOfImport [''Foo.bar''] ''Foo'' = [''bar'']"
    by (simp_all add: rootTypeOf_def fieldsOfImport_def fieldOf_def)
  let ?st = "\<lparr>heap = [], allDefinitions_acc = [], typeDefinitions_acc = [],
           processedFiles = Map.empty\<rparr>"
  have "\<exists>st' r.
      preapreRawModules False id id [''Foo.bar''] ?src ?st = Inr ([], st')
      \<and> r \<in> set (last (allDefinitions_acc st')) \<and> (heap ?st @ [?d]) ! r = ?d
      \<and> heap st' ! r = restrictFields False id id (fieldsOfImport [''Foo.bar''] ''Foo'') ?d"
    by (rule field_import_changes_unfiltered_node[where token="''Foo.bar''" and sdl="''type Foo''"])
      (simp_all add: 1 2)
  with 1 2
  show ?thesis by simp blast
qed

text \<open>
  C10 (as stated) fails where the import list also has a bare \<^verbatim>\<open>*\<close> token: the list
  \<^verbatim>\<open>['*', 'Foo.bar']\<close> has the field-scoped token and no \<^verbatim>\<open>Foo.*\<close>, and the node keeps both
  fields.
\<close>

theorem field_import_with_wildcard_counterexample:
  "preapreRawModules False id id [''*'', ''Foo.bar'']
     \<lparr>location = ''b.graphql'',
      document = Some [ObjectTypeDefinition ''Foo'' [] []
        [FieldDefinition ''bar'' [] (NamedType ''Int'') [],
         FieldDefinition ''baz'' [] (NamedType ''Int'') []]],
      rawSDL = Some ''type Foo'', schema = None :: unit option\<rparr>
     \<lparr>heap = [], allDefinitions_acc = [], typeDefinitions_acc = [],
      processedFiles = Map.empty\<rparr> =
   Inr ([], \<lparr>heap = [ObjectTypeDefinition ''Foo'' [] []
                       [FieldDefinition ''bar'' [] (NamedType ''Int'') [],
                        FieldDefinition ''baz'' [] (NamedType ''Int'') []]],
             allDefinitions_acc = [[0]], typeDefinitions_acc = [[0]],
             processedFiles = Map.empty\<rparr>)"
  by (simp add: resolve_eval parseSDL_def trim_def isWhiteSpace_def startsWith_def)

end
